theory Spec2Isabelle
  imports Main "HOL-Library.Sublist"
begin

section \<open>The object graph as seen through reflection\<close>

text \<open>
  The walker of \<^verbatim>\<open>walker.go\<close> inspects a Go value through package \<^verbatim>\<open>reflect\<close>.
  A type descriptor is modelled by its identity (\<^verbatim>\<open>reflect.Type\<close> values are compared
  with \<^verbatim>\<open>==\<close>, which tells two types of the same name apart) and by the three strings
  the walker asks of it: \<^verbatim>\<open>t.Name()\<close>, \<^verbatim>\<open>t.String()\<close> and \<^verbatim>\<open>t.PkgPath()\<close>.
  A struct field descriptor (\<^verbatim>\<open>reflect.StructField\<close>) carries its name, its
  \<^verbatim>\<open>PkgPath\<close> (non-empty exactly for an unexported field) and its tag.
\<close>

type_synonym addr = nat

record rtype =
  tId :: nat
  tName :: string
  tString :: string
  tPkgPath :: string

record StructField =
  fName :: string
  fPkgPath :: string
  fTag :: string

text \<open>
  A value handed round as \<^verbatim>\<open>interface{}\<close>. \<open>VNil\<close> is the nil interface. An interface
  holding a value is that value (\<^verbatim>\<open>Interface()\<close> unwraps it). Pointers, slices and maps
  refer to the heap by address, so that a graph may refer back to itself; address 0 is
  the nil pointer. A map entry is kept with the text its key prints as under \<^verbatim>\<open>%v\<close> and
  with the value a lookup of that key finds: none for a key that differs from itself (a
  NaN), which \<^verbatim>\<open>MapKeys\<close> returns and \<^verbatim>\<open>MapIndex\<close> does not find.
\<close>

datatype val =
    VNil
  | VScalar rtype
  | VPtr rtype addr
  | VStruct rtype "(StructField \<times> val) list"
  | VArray rtype "val list"
  | VSlice rtype addr
  | VMap rtype addr

record heap =
  pointee :: "addr \<Rightarrow> val"
  backing :: "addr \<Rightarrow> val list"
  buckets :: "addr \<Rightarrow> (string \<times> val option) list"

datatype kind = KInvalid | KPtr | KInterface | KStruct | KArray | KSlice | KMap | KOther

text \<open>
  A \<^verbatim>\<open>reflect.Value\<close>: the value it holds, whether it is valid (the zero Value is
  not) and the two flags the walker depends on. \<open>flagRO\<close> is set on a value obtained
  through an unexported struct field, \<open>flagAddr\<close> on an addressable one.
  \<^verbatim>\<open>reflect.ValueOf\<close> sets neither, and gives the zero Value for the nil interface.
\<close>

record Value =
  content :: val
  valid :: bool
  flagRO :: bool
  flagAddr :: bool

datatype 'e failure = Panic | Err 'e

definition ValueOf :: "val \<Rightarrow> Value" where
  "ValueOf obj = \<lparr>content = obj, valid = (obj \<noteq> VNil), flagRO = False, flagAddr = False\<rparr>"

definition IsValid :: "Value \<Rightarrow> bool" where
  "IsValid v = valid v"

definition CanInterface :: "Value \<Rightarrow> bool" where
  "CanInterface v = (\<not> flagRO v)"

definition Value_CanSet :: "Value \<Rightarrow> bool" where
  "Value_CanSet v = (flagAddr v \<and> \<not> flagRO v)"

fun Kind :: "Value \<Rightarrow> kind" where
  "Kind v = (case content v of
      VNil \<Rightarrow> (if valid v then KInterface else KInvalid)
    | VScalar t \<Rightarrow> KOther
    | VPtr t a \<Rightarrow> KPtr
    | VStruct t fs \<Rightarrow> KStruct
    | VArray t xs \<Rightarrow> KArray
    | VSlice t a \<Rightarrow> KSlice
    | VMap t a \<Rightarrow> KMap)"

fun TypeOf :: "val \<Rightarrow> rtype option" where
  "TypeOf VNil = None"
| "TypeOf (VScalar t) = Some t"
| "TypeOf (VPtr t a) = Some t"
| "TypeOf (VStruct t fs) = Some t"
| "TypeOf (VArray t xs) = Some t"
| "TypeOf (VSlice t a) = Some t"
| "TypeOf (VMap t a) = Some t"

definition Value_Type :: "Value \<Rightarrow> rtype" where
  "Value_Type v = the (TypeOf (content v))"

fun Pointer :: "Value \<Rightarrow> addr" where
  "Pointer v = (case content v of VPtr t a \<Rightarrow> a | VSlice t a \<Rightarrow> a | VMap t a \<Rightarrow> a | _ \<Rightarrow> 0)"

definition IsNil :: "Value \<Rightarrow> bool" where
  "IsNil v = (Pointer v = 0)"

text \<open>
  \<^verbatim>\<open>Interface()\<close> panics on the zero Value and on a value obtained through an unexported
  field.
\<close>

definition Interface :: "Value \<Rightarrow> 'e failure + val" where
  "Interface v = (if IsValid v \<and> CanInterface v then Inr (content v) else Inl Panic)"

definition Elem :: "heap \<Rightarrow> Value \<Rightarrow> Value" where
  "Elem h v = \<lparr>content = pointee h (Pointer v), valid = (Pointer v \<noteq> 0), flagRO = flagRO v,
     flagAddr = True\<rparr>"

definition Value_Field :: "Value \<Rightarrow> StructField \<times> val \<Rightarrow> Value" where
  "Value_Field v fx = \<lparr>content = snd fx, valid = True,
     flagRO = (flagRO v \<or> fPkgPath (fst fx) \<noteq> []),
     flagAddr = flagAddr v\<rparr>"

definition Index :: "Value \<Rightarrow> val \<Rightarrow> Value" where
  "Index v x = \<lparr>content = x, valid = True, flagRO = flagRO v,
     flagAddr = (case content v of VSlice t a \<Rightarrow> True | _ \<Rightarrow> flagAddr v)\<rparr>"

text \<open>\<^verbatim>\<open>MapIndex\<close> gives the zero Value for a key it does not find.\<close>

definition MapIndex :: "Value \<Rightarrow> val option \<Rightarrow> Value" where
  "MapIndex v e = (case e of
      None \<Rightarrow> \<lparr>content = VNil, valid = False, flagRO = False, flagAddr = False\<rparr>
    | Some x \<Rightarrow> \<lparr>content = x, valid = True, flagRO = flagRO v, flagAddr = False\<rparr>)"

text \<open>The decimal text of an index, as \<^verbatim>\<open>%d\<close> prints it.\<close>

fun decimal :: "nat \<Rightarrow> string" where
  "decimal n = (if n < 10 then [''0123456789'' ! n]
     else decimal (n div 10) @ [''0123456789'' ! (n mod 10)])"

declare decimal.simps [simp del]

section \<open>Metadata nodes, settings and traversal state\<close>

text \<open>
  \<^verbatim>\<open>FieldMeta\<close> objects live in a store (a list); a \<^verbatim>\<open>*FieldMeta\<close> is an index into it.
\<close>

record FieldMeta =
  Name :: string
  Type :: rtype
  CanSet :: bool
  IsPrivate :: bool
  Path :: string
  Parent :: "nat option"
  Children :: "nat list"

text \<open>
  A user callback sees the value and a copy of the node, may change its own state \<open>'u\<close>
  and may return an error. The object graph itself is not changed during a walk.
\<close>

type_synonym ('u, 'e) UserFunc = "Value \<Rightarrow> FieldMeta \<Rightarrow> 'u \<Rightarrow> 'e option \<times> 'u"

record ('u, 'e) walkSettings =
  maxDepth :: int
  includePrivate :: bool
  onlySettable :: bool
  tagFilter :: "(string \<Rightarrow> bool) option"
  typeFilter :: "(rtype \<Rightarrow> bool) option"
  metaFilter :: "(FieldMeta \<Rightarrow> bool) option"
  userFuncs :: "('u, 'e) UserFunc list"

type_synonym ('u, 'e) Option = "('u, 'e) walkSettings \<Rightarrow> ('u, 'e) walkSettings"

text \<open>One callback invocation, as logged: the node it was made for, both arguments, the result.\<close>

record 'e call =
  c_node :: nat
  c_value :: Value
  c_meta :: FieldMeta
  c_result :: "'e option"

text \<open>
  The state threaded through the recursion: the visited addresses, the flat map, the
  node store, the callbacks' state, and two logs kept for stating properties: the value
  each node was built for (\<open>visits\<close>, parallel to \<open>nodes\<close>) and the callback
  invocations in order (\<open>trace\<close>).
\<close>

record ('u, 'e) wstate =
  visited :: "addr set"
  flatMap :: "string \<Rightarrow> nat option"
  nodes :: "FieldMeta list"
  ustate :: 'u
  visits :: "val list"
  trace :: "'e call list"

definition defaultSettings :: "('u, 'e) walkSettings" where
  "defaultSettings = \<lparr>maxDepth = 10, includePrivate = True, onlySettable = False,
     tagFilter = None, typeFilter = None, metaFilter = None, userFuncs = []\<rparr>"

definition MaxDepth :: "int \<Rightarrow> ('u, 'e) Option" where
  "MaxDepth depth = (\<lambda>s. s\<lparr>maxDepth := depth\<rparr>)"

definition PrivateFields :: "('u, 'e) Option" where
  "PrivateFields = (\<lambda>s. s\<lparr>includePrivate := True\<rparr>)"

definition OnlySettable :: "('u, 'e) Option" where
  "OnlySettable = (\<lambda>s. s\<lparr>onlySettable := True\<rparr>)"

definition WithMetaFilter :: "(FieldMeta \<Rightarrow> bool) \<Rightarrow> ('u, 'e) Option" where
  "WithMetaFilter fn = (\<lambda>s. s\<lparr>metaFilter := Some fn\<rparr>)"

definition WithTagFilter :: "(string \<Rightarrow> bool) \<Rightarrow> ('u, 'e) Option" where
  "WithTagFilter fn = (\<lambda>s. s\<lparr>tagFilter := Some fn\<rparr>)"

definition WithTypeFilter :: "(rtype \<Rightarrow> bool) \<Rightarrow> ('u, 'e) Option" where
  "WithTypeFilter fn = (\<lambda>s. s\<lparr>typeFilter := Some fn\<rparr>)"

definition WithUserFunc :: "('u, 'e) UserFunc \<Rightarrow> ('u, 'e) Option" where
  "WithUserFunc fn = (\<lambda>s. s\<lparr>userFuncs := userFuncs s @ [fn]\<rparr>)"

fun TypeIsOneOf :: "rtype list \<Rightarrow> rtype \<Rightarrow> bool" where
  "TypeIsOneOf [] t = False"
| "TypeIsOneOf (allowedType # rest) t = (if t = allowedType then True else TypeIsOneOf rest t)"

fun IgnoreType :: "rtype list \<Rightarrow> rtype \<Rightarrow> bool" where
  "IgnoreType [] t = True"
| "IgnoreType (disallowedType # rest) t = (if t = disallowedType then False else IgnoreType rest t)"

section \<open>The recursive step\<close>

text \<open>The cycle guard: a non-nil pointer (or interface) seen before stops the descent.\<close>

definition alreadyVisited :: "Value \<Rightarrow> ('u, 'e) wstate \<Rightarrow> bool" where
  "alreadyVisited v st =
     ((Kind v = KPtr \<or> Kind v = KInterface) \<and> Pointer v \<noteq> 0 \<and> Pointer v \<in> visited st)"

definition markVisited :: "Value \<Rightarrow> ('u, 'e) wstate \<Rightarrow> ('u, 'e) wstate" where
  "markVisited v st =
     (if (Kind v = KPtr \<or> Kind v = KInterface) \<and> Pointer v \<noteq> 0
      then st\<lparr>visited := insert (Pointer v) (visited st)\<rparr> else st)"

text \<open>Node construction and \<^verbatim>\<open>flatMap.Store(path, meta)\<close>.\<close>

definition newMeta :: "Value \<Rightarrow> string \<Rightarrow> FieldMeta" where
  "newMeta v path =
     \<lparr>Name = (if tName (Value_Type v) = [] then tString (Value_Type v) else tName (Value_Type v)),
      Type = Value_Type v,
      CanSet = Value_CanSet v,
      IsPrivate = (tPkgPath (Value_Type v) \<noteq> []),
      Path = path,
      Parent = None,
      Children = []\<rparr>"

definition buildNode :: "Value \<Rightarrow> string \<Rightarrow> ('u, 'e) wstate \<Rightarrow> ('u, 'e) wstate" where
  "buildNode v path st =
     st\<lparr>nodes := nodes st @ [newMeta v path],
        flatMap := (flatMap st)(path \<mapsto> length (nodes st)),
        visits := visits st @ [content v]\<rparr>"

text \<open>
  The loop over \<^verbatim>\<open>settings.userFuncs\<close>: each callback gets \<^verbatim>\<open>*meta\<close>, the node as it is
  in the store at that moment; the first error ends the loop.
\<close>

fun callUserFuncs :: "('u, 'e) UserFunc list \<Rightarrow> Value \<Rightarrow> nat \<Rightarrow> ('u, 'e) wstate
    \<Rightarrow> 'e option \<times> ('u, 'e) wstate" where
  "callUserFuncs [] v m st = (None, st)"
| "callUserFuncs (fn # fns) v m st =
     (case fn v (nodes st ! m) (ustate st) of
        (Some err, u) \<Rightarrow>
          (Some err, st\<lparr>ustate := u, trace := trace st @
             [\<lparr>c_node = m, c_value = v, c_meta = nodes st ! m, c_result = Some err\<rparr>]\<rparr>)
      | (None, u) \<Rightarrow>
          callUserFuncs fns v m (st\<lparr>ustate := u, trace := trace st @
             [\<lparr>c_node = m, c_value = v, c_meta = nodes st ! m, c_result = None\<rparr>]\<rparr>))"

text \<open>
  The kind dispatch: the locations below a value, each with the path the recursive call
  gets, in the order the loops of the source reach them. For a struct the three
  \<^verbatim>\<open>continue\<close> tests decide which fields are reached.
\<close>

definition skipField :: "('u, 'e) walkSettings \<Rightarrow> Value \<Rightarrow> StructField \<times> val \<Rightarrow> bool" where
  "skipField s v fx =
     ((case tagFilter s of None \<Rightarrow> False | Some tf \<Rightarrow> \<not> tf (fTag (fst fx)))
      \<or> (\<not> includePrivate s \<and> fPkgPath (fst fx) \<noteq> [])
      \<or> (onlySettable s \<and> \<not> Value_CanSet (Value_Field v fx)))"

definition indexed :: "Value \<Rightarrow> string \<Rightarrow> val list \<Rightarrow> (string \<times> Value) list" where
  "indexed v path xs =
     map (\<lambda>(i, x). (path @ ''['' @ decimal i @ '']'', Index v x)) (enumerate 0 xs)"

definition subvalues :: "('u, 'e) walkSettings \<Rightarrow> heap \<Rightarrow> Value \<Rightarrow> string
    \<Rightarrow> (string \<times> Value) list" where
  "subvalues s h v path = (case content v of
      VPtr t a \<Rightarrow> (if \<not> IsNil v then [(path @ ''.*'', Elem h v)] else [])
    | VStruct t fs \<Rightarrow>
        map (\<lambda>fx. (path @ ''.'' @ fName (fst fx), Value_Field v fx))
          (filter (\<lambda>fx. \<not> skipField s v fx) fs)
    | VArray t xs \<Rightarrow> indexed v path xs
    | VSlice t a \<Rightarrow> indexed v path (backing h a)
    | VMap t a \<Rightarrow> map (\<lambda>(k, x). (path @ ''['' @ k @ '']'', MapIndex v x)) (buckets h a)
    | _ \<Rightarrow> [])"

text \<open>\<^verbatim>\<open>meta.Children = append(meta.Children, childMeta); childMeta.Parent = meta\<close>.\<close>

fun attach :: "nat \<Rightarrow> nat option \<Rightarrow> ('u, 'e) wstate \<Rightarrow> ('u, 'e) wstate" where
  "attach m None st = st"
| "attach m (Some c) st =
     st\<lparr>nodes := ((nodes st)[m := (nodes st ! m)\<lparr>Children := Children (nodes st ! m) @ [c]\<rparr>])
                    [c := (((nodes st)[m := (nodes st ! m)\<lparr>Children := Children (nodes st ! m) @ [c]\<rparr>]) ! c)
                            \<lparr>Parent := Some m\<rparr>]\<rparr>"

text \<open>
  \<open>walkRecursive\<close> follows the source line by line up to the kind dispatch;
  \<open>walkChildren\<close> is the body shared by its four loops: take the next location, call
  \<^verbatim>\<open>Interface()\<close> on it, recurse one level deeper, attach the child if there is one.
  The result is \<open>Inl\<close> for a panic or a callback error, \<open>Inr\<close> for a normal
  return (\<open>None\<close> is the nil node).
\<close>

function walkRecursive :: "('u, 'e) walkSettings \<Rightarrow> heap \<Rightarrow> val \<Rightarrow> int \<Rightarrow> string
    \<Rightarrow> ('u, 'e) wstate \<Rightarrow> ('e failure + nat option) \<times> ('u, 'e) wstate"
  and walkChildren :: "('u, 'e) walkSettings \<Rightarrow> heap \<Rightarrow> (string \<times> Value) list \<Rightarrow> int \<Rightarrow> nat
    \<Rightarrow> ('u, 'e) wstate \<Rightarrow> ('e failure + unit) \<times> ('u, 'e) wstate" where
  "walkRecursive s h obj depth path st =
     (if depth > maxDepth s then (Inr None, st)
      else if \<not> IsValid (ValueOf obj) \<or> \<not> CanInterface (ValueOf obj) then (Inr None, st)
      else if alreadyVisited (ValueOf obj) st then (Inr None, st)
      else (case callUserFuncs (userFuncs s) (ValueOf obj) (length (nodes st))
                   (buildNode (ValueOf obj) path (markVisited (ValueOf obj) st)) of
              (Some err, st1) \<Rightarrow> (Inl (Err err), st1)
            | (None, st1) \<Rightarrow>
                (case walkChildren s h (subvalues s h (ValueOf obj) path) (depth + 1)
                        (length (nodes st)) st1 of
                   (Inl f, st2) \<Rightarrow> (Inl f, st2)
                 | (Inr u, st2) \<Rightarrow> (Inr (Some (length (nodes st))), st2))))"
| "walkChildren s h [] depth m st = (Inr (), st)"
| "walkChildren s h ((newPath, fv) # rest) depth m st =
     (case Interface fv of
        Inl f \<Rightarrow> (Inl f, st)
      | Inr obj \<Rightarrow>
          (case walkRecursive s h obj depth newPath st of
             (Inl f, st1) \<Rightarrow> (Inl f, st1)
           | (Inr childMeta, st1) \<Rightarrow> walkChildren s h rest depth m (attach m childMeta st1)))"
  by pat_completeness auto

termination
  by (relation "measures
        [\<lambda>x. case x of
               Inl (s, h, obj, depth, path, st) \<Rightarrow> 2 * nat (maxDepth s + 1 - depth) + 1
             | Inr (s, h, jobs, depth, m, st) \<Rightarrow> 2 * nat (maxDepth s + 1 - depth) + 2,
         \<lambda>x. case x of
               Inl (s, h, obj, depth, path, st) \<Rightarrow> 0
             | Inr (s, h, jobs, depth, m, st) \<Rightarrow> length jobs]")
    auto

declare walkRecursive.simps [simp del]

section \<open>The entry point\<close>

datatype 'e outcome =
    Panicked
  | Returned "nat option" "(string \<Rightarrow> nat option) option" "'e option"

definition initState :: "'u \<Rightarrow> ('u, 'e) wstate" where
  "initState u = \<lparr>visited = {}, flatMap = Map.empty, nodes = [], ustate = u,
     visits = [], trace = []\<rparr>"

definition applyOptions :: "('u, 'e) Option list \<Rightarrow> ('u, 'e) walkSettings" where
  "applyOptions options = foldl (\<lambda>s option. option s) defaultSettings options"

text \<open>
  \<open>Walk\<close> returns what the Go function returns (root node, flat map, error), or
  \<open>Panicked\<close>, together with the final state, which holds the node store the returned
  pointers refer to and the logs. \<^verbatim>\<open>reflect.TypeOf(nil)\<close> is nil, and \<^verbatim>\<open>t.Name()\<close> on it
  panics.
\<close>

definition Walk :: "heap \<Rightarrow> val \<Rightarrow> ('u, 'e) Option list \<Rightarrow> 'u \<Rightarrow> 'e outcome \<times> ('u, 'e) wstate" where
  "Walk h obj options u =
     (case TypeOf obj of
        None \<Rightarrow> (Panicked, initState u)
      | Some t \<Rightarrow>
          (case walkRecursive (applyOptions options) h obj 0
                  (if tName t = [] then tString t else tName t) (initState u) of
             (Inl Panic, st) \<Rightarrow> (Panicked, st)
           | (Inl (Err err), st) \<Rightarrow> (Returned None None (Some err), st)
           | (Inr fieldMap, st) \<Rightarrow> (Returned fieldMap (Some (flatMap st)) None, st)))"


section \<open>Example inputs\<close>

text \<open>
  Type descriptors: predeclared types, a type defined in package \<^verbatim>\<open>main\<close>, an unnamed
  type; the number is the descriptor's identity.
\<close>

definition intType :: rtype where
  "intType = \<lparr>tId = 1, tName = ''int'', tString = ''int'', tPkgPath = []\<rparr>"

definition stringType :: rtype where
  "stringType = \<lparr>tId = 2, tName = ''string'', tString = ''string'', tPkgPath = []\<rparr>"

definition namedType :: "nat \<Rightarrow> string \<Rightarrow> rtype" where
  "namedType i n = \<lparr>tId = i, tName = n, tString = ''main.'' @ n, tPkgPath = ''main''\<rparr>"

definition unnamedType :: "nat \<Rightarrow> string \<Rightarrow> rtype" where
  "unnamedType i s = \<lparr>tId = i, tName = [], tString = s, tPkgPath = []\<rparr>"

definition exported :: "string \<Rightarrow> StructField" where
  "exported n = \<lparr>fName = n, fPkgPath = [], fTag = []\<rparr>"

definition unexported :: "string \<Rightarrow> StructField" where
  "unexported n = \<lparr>fName = n, fPkgPath = ''main'', fTag = []\<rparr>"

definition emptyHeap :: heap where
  "emptyHeap = \<lparr>pointee = (\<lambda>a. VNil), backing = (\<lambda>a. []), buckets = (\<lambda>a. [])\<rparr>"

text \<open>A callback that records the path of each node it is called for.\<close>

definition logPath :: "(string list, 'e) UserFunc" where
  "logPath v meta u = (None, u @ [Path meta])"

text \<open>\<^verbatim>\<open>type S struct { A int; B string }\<close>\<close>

definition intAndString :: val where
  "intAndString = VStruct (namedType 10 ''S'')
     [(exported ''A'', VScalar intType), (exported ''B'', VScalar stringType)]"

text \<open>\<^verbatim>\<open>type T struct { a int }\<close>\<close>

definition privateField :: val where
  "privateField = VStruct (namedType 11 ''T'') [(unexported ''a'', VScalar intType)]"

text \<open>\<^verbatim>\<open>type Inner struct{}; type T struct { A Inner }\<close>\<close>

definition namedInner :: val where
  "namedInner = VStruct (namedType 12 ''T'') [(exported ''A'', VStruct (namedType 13 ''Inner'') [])]"

text \<open>
  \<^verbatim>\<open>map[string][]int{"a": {7}, "a][0": nil}\<close>: the map lives at address 1, the backing
  array of the first slice at address 2.
\<close>

definition sliceOfInt :: rtype where
  "sliceOfInt = unnamedType 19 ''[]int''"

definition mapOfSlices :: rtype where
  "mapOfSlices = unnamedType 20 ''map[string][]int''"

definition collidingHeap :: heap where
  "collidingHeap = \<lparr>pointee = (\<lambda>a. VNil),
     backing = (\<lambda>a. if a = 2 then [VScalar intType] else []),
     buckets = (\<lambda>a. if a = 1 then [(''a'', Some (VSlice sliceOfInt 2)), (''a][0'', Some (VSlice sliceOfInt 0))]
                    else [])\<rparr>"

definition collidingMap :: val where
  "collidingMap = VMap mapOfSlices 1"

text \<open>
  \<^verbatim>\<open>map[float64]int{math.NaN(): 1}\<close>: the map lives at address 1; its key is returned by
  \<^verbatim>\<open>MapKeys\<close> and not found by \<^verbatim>\<open>MapIndex\<close>.
\<close>

definition nanHeap :: heap where
  "nanHeap = \<lparr>pointee = (\<lambda>a. VNil), backing = (\<lambda>a. []), buckets = (\<lambda>a. [(''NaN'', None)])\<rparr>"

definition nanMap :: val where
  "nanMap = VMap (unnamedType 24 ''map[float64]int'') 1"

section \<open>Notions used in the statements\<close>

text \<open>The non-nil addresses of the pointer values among the values nodes were built for.\<close>

definition ptrAddrs :: "val list \<Rightarrow> addr list" where
  "ptrAddrs vs = concat (map (\<lambda>x. case x of VPtr t a \<Rightarrow> (if a = 0 then [] else [a]) | _ \<Rightarrow> []) vs)"

text \<open>
  Every path a traversal has touched: the paths of the nodes built, the keys of the flat
  map, and the paths handed to callbacks.
\<close>

definition seenPaths :: "('u, 'e) wstate \<Rightarrow> string set" where
  "seenPaths st = set (map Path (nodes st)) \<union> dom (flatMap st)
     \<union> (\<lambda>c. Path (c_meta c)) ` set (trace st)"

text \<open>A callback that fails with the given error at the node of the given path.\<close>

definition failAt :: "string \<Rightarrow> 'e \<Rightarrow> (string list, 'e) UserFunc" where
  "failAt p err v meta u = (if Path meta = p then Some err else None, u @ [Path meta])"

text \<open>
  \<^verbatim>\<open>type N struct { Next *N }\<close> with \<^verbatim>\<open>n.Next = n\<close>: the struct lives at address 1 and its
  field points back to it.
\<close>

definition selfHeap :: heap where
  "selfHeap = \<lparr>pointee = (\<lambda>a. VStruct (namedType 14 ''N'') [(exported ''Next'', VPtr (unnamedType 15 ''*main.N'') 1)]),
     backing = (\<lambda>a. []), buckets = (\<lambda>a. [])\<rparr>"

definition selfPointer :: val where
  "selfPointer = VPtr (unnamedType 15 ''*main.N'') 1"

text \<open>
  \<^verbatim>\<open>m := map[string]interface{}{}; m["self"] = m\<close>: the map lives at address 1 and its one
  entry holds the map itself.
\<close>

definition selfMapHeap :: heap where
  "selfMapHeap = \<lparr>pointee = (\<lambda>a. VNil), backing = (\<lambda>a. []),
     buckets = (\<lambda>a. [(''self'', Some (VMap (unnamedType 23 ''map[string]interface {}'') 1))])\<rparr>"

definition selfMap :: val where
  "selfMap = VMap (unnamedType 23 ''map[string]interface {}'') 1"

text \<open>\<^verbatim>\<open>struct { S1 struct { S2 struct { SF1 int } } }\<close>, named \<^verbatim>\<open>T\<close>.\<close>

definition threeLevels :: val where
  "threeLevels = VStruct (namedType 16 ''T'')
     [(exported ''S1'', VStruct (unnamedType 17 ''struct { S2 struct { SF1 int } }'')
        [(exported ''S2'', VStruct (unnamedType 18 ''struct { SF1 int }'')
           [(exported ''SF1'', VScalar intType)])])]"

text \<open>
  Path syntax. A field name is \<open>plainName\<close> when it has no dot and no opening bracket
  (every Go identifier is); a map key's text is \<open>plainKey\<close> when it has no closing
  bracket. What follows a location's path in the path of a location below it is empty or
  starts with a dot or an opening bracket (\<open>pathSuffix\<close>). Paths are \<open>apart\<close> when they
  are distinct and stay distinct however they are continued.
\<close>

definition plainName :: "string \<Rightarrow> bool" where
  "plainName n = (CHR ''.'' \<notin> set n \<and> CHR ''['' \<notin> set n)"

definition plainKey :: "string \<Rightarrow> bool" where
  "plainKey k = (CHR '']'' \<notin> set k)"

definition pathSuffix :: "string \<Rightarrow> bool" where
  "pathSuffix x = (case x of [] \<Rightarrow> True | c # cs \<Rightarrow> c = CHR ''.'' \<or> c = CHR ''['')"

definition apart :: "string list \<Rightarrow> bool" where
  "apart ps = (distinct ps \<and>
     (\<forall>p \<in> set ps. \<forall>q \<in> set ps. p \<noteq> q \<longrightarrow>
        (\<forall>x y. pathSuffix x \<longrightarrow> pathSuffix y \<longrightarrow> p @ x \<noteq> q @ y)))"

text \<open>
  Values as Go builds them: the exported fields of a struct have distinct plain names.
  In a well-formed heap, moreover, every map prints the keys it can look up to distinct
  plain texts.
\<close>

fun wfVal :: "val \<Rightarrow> bool" where
  "wfVal (VStruct t fs) =
     (distinct (map (\<lambda>fx. fName (fst fx)) (filter (\<lambda>fx. fPkgPath (fst fx) = []) fs))
      \<and> (\<forall>fx \<in> set fs. (fPkgPath (fst fx) = [] \<longrightarrow> plainName (fName (fst fx))) \<and> wfVal (snd fx)))"
| "wfVal (VArray t xs) = (\<forall>x \<in> set xs. wfVal x)"
| "wfVal v = True"

definition wfHeap :: "heap \<Rightarrow> bool" where
  "wfHeap h = (\<forall>a. wfVal (pointee h a)
     \<and> (\<forall>x \<in> set (backing h a). wfVal x)
     \<and> distinct (map fst (filter (\<lambda>kx. snd kx \<noteq> None) (buckets h a)))
     \<and> (\<forall>kx \<in> set (buckets h a). \<forall>x. snd kx = Some x \<longrightarrow> plainKey (fst kx) \<and> wfVal x))"

text \<open>
  \<^verbatim>\<open>type B struct { F []int; G map[string]string }\<close> with one element in \<^verbatim>\<open>F\<close> (backing
  array at address 2) and the key \<^verbatim>\<open>x\<close> in \<^verbatim>\<open>G\<close> (map at address 3).
\<close>

definition benchHeap :: heap where
  "benchHeap = \<lparr>pointee = (\<lambda>a. VScalar intType),
     backing = (\<lambda>a. if a = 2 then [VScalar intType] else []),
     buckets = (\<lambda>a. if a = 3 then [(''x'', Some (VScalar stringType))] else [])\<rparr>"

definition benchStruct :: val where
  "benchStruct = VStruct (namedType 21 ''B'')
     [(exported ''F'', VSlice (unnamedType 19 ''[]int'') 2),
      (exported ''G'', VMap (unnamedType 22 ''map[string]string'') 3)]"

text \<open>
  The flat map and the node store agree: a key leads to a node of that path, and every
  node's path is a key.
\<close>

definition flatOK :: "('u, 'e) wstate \<Rightarrow> bool" where
  "flatOK st = ((\<forall>p i. flatMap st p = Some i \<longrightarrow>
        i < length (map Path (nodes st)) \<and> map Path (nodes st) ! i = p)
     \<and> set (map Path (nodes st)) \<subseteq> dom (flatMap st))"

text \<open>A state in which the flat map already holds a node for the path \<^verbatim>\<open>p\<close>.\<close>

definition cachedState :: "(unit, unit) wstate" where
  "cachedState = buildNode (ValueOf (VScalar stringType)) ''p'' (initState ())"

section \<open>Basic facts\<close>

lemmas eval_defs = Walk_def walkRecursive.simps applyOptions_def defaultSettings_def
  MaxDepth_def WithTypeFilter_def WithUserFunc_def WithMetaFilter_def initState_def
  intType_def stringType_def namedType_def unnamedType_def exported_def unexported_def
  emptyHeap_def logPath_def ValueOf_def IsValid_def CanInterface_def alreadyVisited_def
  markVisited_def buildNode_def newMeta_def subvalues_def skipField_def Value_Field_def
  Interface_def Value_Type_def Value_CanSet_def IsNil_def Elem_def Index_def MapIndex_def
  indexed_def decimal.simps failAt_def

lemma ValueOf_simps [simp]:
  "content (ValueOf obj) = obj" "valid (ValueOf obj) = (obj \<noteq> VNil)"
  "flagRO (ValueOf obj) = False" "flagAddr (ValueOf obj) = False"
  by (simp_all add: ValueOf_def)

lemma IsValid_ValueOf [simp]: "IsValid (ValueOf obj) = (obj \<noteq> VNil)"
  by (simp add: IsValid_def)

lemma CanInterface_ValueOf [simp]: "CanInterface (ValueOf obj)"
  by (simp add: CanInterface_def)

lemma callUserFuncs_frame:
  "callUserFuncs fns v m st = (r, st') \<Longrightarrow>
     visited st' = visited st \<and> flatMap st' = flatMap st \<and> nodes st' = nodes st \<and> visits st' = visits st"
  by (induction fns v m st arbitrary: r st' rule: callUserFuncs.induct)
     (auto split: prod.splits option.splits)

lemma callUserFuncs_trace:
  "callUserFuncs fns v m st = (r, st') \<Longrightarrow>
     \<exists>new. trace st' = trace st @ new
       \<and> (\<forall>c \<in> set new. c_node c = m \<and> c_value c = v \<and> c_meta c = nodes st ! m)
       \<and> (\<forall>c \<in> set (butlast new). c_result c = None)
       \<and> (case r of None \<Rightarrow> \<forall>c \<in> set new. c_result c = None
                   | Some e \<Rightarrow> new \<noteq> [] \<and> c_result (last new) = Some e)"
proof (induction fns v m st arbitrary: r st' rule: callUserFuncs.induct)
  case (1 v m st)
  then show ?case by simp
next
  case (2 fn fns v m st)
  obtain x u where fn: "fn v (nodes st ! m) (ustate st) = (x, u)" by (cases "fn v (nodes st ! m) (ustate st)")
  show ?case
  proof (cases x)
    case None
    let ?c = "\<lparr>c_node = m, c_value = v, c_meta = nodes st ! m, c_result = None\<rparr>"
    let ?st1 = "st\<lparr>ustate := u, trace := trace st @ [?c]\<rparr>"
    from 2(2) fn None have run: "callUserFuncs fns v m ?st1 = (r, st')" by simp
    from "2.IH" [OF fn [symmetric] None run] obtain new where
      new: "trace st' = trace ?st1 @ new"
        "\<forall>c \<in> set new. c_node c = m \<and> c_value c = v \<and> c_meta c = nodes ?st1 ! m"
        "\<forall>c \<in> set (butlast new). c_result c = None"
        "case r of None \<Rightarrow> \<forall>c \<in> set new. c_result c = None
                   | Some e \<Rightarrow> new \<noteq> [] \<and> c_result (last new) = Some e"
      by blast
    have "trace st' = trace st @ (?c # new)" using new(1) by simp
    moreover have "\<forall>c \<in> set (?c # new). c_node c = m \<and> c_value c = v \<and> c_meta c = nodes st ! m"
      using new(2) by simp
    moreover have "\<forall>c \<in> set (butlast (?c # new)). c_result c = None"
      using new(3) by simp
    moreover have "case r of None \<Rightarrow> \<forall>c \<in> set (?c # new). c_result c = None
                   | Some e \<Rightarrow> ?c # new \<noteq> [] \<and> c_result (last (?c # new)) = Some e"
      using new(4) by (cases r) auto
    ultimately show ?thesis by blast
  next
    case (Some e)
    let ?c = "\<lparr>c_node = m, c_value = v, c_meta = nodes st ! m, c_result = Some e\<rparr>"
    from 2(2) fn Some have "r = Some e" "st' = st\<lparr>ustate := u, trace := trace st @ [?c]\<rparr>" by auto
    then show ?thesis by (intro exI [of _ "[?c]"]) simp
  qed
qed

lemma attach_frame [simp]:
  "visited (attach m c st) = visited st" "flatMap (attach m c st) = flatMap st"
  "ustate (attach m c st) = ustate st" "visits (attach m c st) = visits st"
  "trace (attach m c st) = trace st" "length (nodes (attach m c st)) = length (nodes st)"
  by (cases c; simp)+

lemma map_update_same: "f y = f (xs ! i) \<Longrightarrow> map f (xs[i := y]) = map f xs"
  by (cases "i < length xs") (simp_all add: map_update list_update_same_conv list_update_beyond)

lemma attach_map:
  assumes "\<And>n p. f (n\<lparr>Parent := p\<rparr>) = f n" "\<And>n cs. f (n\<lparr>Children := cs\<rparr>) = f n"
  shows "map f (nodes (attach m c st)) = map f (nodes st)"
proof (cases c)
  case None
  then show ?thesis by simp
next
  case (Some a)
  let ?xs = "(nodes st)[m := (nodes st ! m)\<lparr>Children := Children (nodes st ! m) @ [a]\<rparr>]"
  have "map f (?xs[a := (?xs ! a)\<lparr>Parent := Some m\<rparr>]) = map f ?xs"
    by (rule map_update_same) (simp add: assms)
  also have "\<dots> = map f (nodes st)"
    by (rule map_update_same) (simp add: assms)
  finally show ?thesis using Some by simp
qed

lemma attach_Path [simp]: "map Path (nodes (attach m c st)) = map Path (nodes st)"
  by (rule attach_map) simp_all

lemma walkRecursive_elim:
  assumes "walkRecursive s h obj depth path st = (r, st')"
  obtains
    (pruned) "r = Inr None" "st' = st" "maxDepth s < depth \<or> obj = VNil \<or> alreadyVisited (ValueOf obj) st"
  | (failed) e where "\<not> maxDepth s < depth" "obj \<noteq> VNil" "\<not> alreadyVisited (ValueOf obj) st"
      "callUserFuncs (userFuncs s) (ValueOf obj) (length (nodes st))
         (buildNode (ValueOf obj) path (markVisited (ValueOf obj) st)) = (Some e, st')"
      "r = Inl (Err e)"
  | (descended) st1 wr where "\<not> maxDepth s < depth" "obj \<noteq> VNil" "\<not> alreadyVisited (ValueOf obj) st"
      "callUserFuncs (userFuncs s) (ValueOf obj) (length (nodes st))
         (buildNode (ValueOf obj) path (markVisited (ValueOf obj) st)) = (None, st1)"
      "walkChildren s h (subvalues s h (ValueOf obj) path) (depth + 1) (length (nodes st)) st1 = (wr, st')"
      "r = (case wr of Inl f \<Rightarrow> Inl f | Inr u \<Rightarrow> Inr (Some (length (nodes st))))"
  using assms
  by (subst (asm) walkRecursive.simps) (auto split: if_splits prod.splits option.splits sum.splits)

lemma walkChildren_Cons_elim:
  assumes "walkChildren s h ((newPath, fv) # rest) depth m st = (r, st')"
  obtains
    (panic) "\<not> (IsValid fv \<and> CanInterface fv)" "r = Inl Panic" "st' = st"
  | (childFailed) f where "IsValid fv \<and> CanInterface fv" "walkRecursive s h (content fv) depth newPath st = (Inl f, st')" "r = Inl f"
  | (continued) childMeta st1 where "IsValid fv \<and> CanInterface fv"
      "walkRecursive s h (content fv) depth newPath st = (Inr childMeta, st1)"
      "walkChildren s h rest depth m (attach m childMeta st1) = (r, st')"
  using assms
  by (auto simp: Interface_def split: if_splits prod.splits sum.splits)


lemma walk_induct_raw:
  fixes P :: "('u, 'e) walkSettings \<Rightarrow> heap \<Rightarrow> val \<Rightarrow> int \<Rightarrow> string \<Rightarrow> ('u, 'e) wstate
      \<Rightarrow> ('e failure + nat option) \<Rightarrow> ('u, 'e) wstate \<Rightarrow> bool"
    and Q :: "('u, 'e) walkSettings \<Rightarrow> heap \<Rightarrow> (string \<times> Value) list \<Rightarrow> int \<Rightarrow> nat \<Rightarrow> ('u, 'e) wstate
      \<Rightarrow> ('e failure + unit) \<Rightarrow> ('u, 'e) wstate \<Rightarrow> bool"
  assumes pruned: "\<And>s h obj depth path st.
        maxDepth s < depth \<or> obj = VNil \<or> alreadyVisited (ValueOf obj) st \<Longrightarrow>
        P s h obj depth path st (Inr None) st"
    and failed: "\<And>s h obj depth path st e st1.
        \<not> maxDepth s < depth \<Longrightarrow> obj \<noteq> VNil \<Longrightarrow> \<not> alreadyVisited (ValueOf obj) st \<Longrightarrow>
        callUserFuncs (userFuncs s) (ValueOf obj) (length (nodes st))
          (buildNode (ValueOf obj) path (markVisited (ValueOf obj) st)) = (Some e, st1) \<Longrightarrow>
        P s h obj depth path st (Inl (Err e)) st1"
    and descended: "\<And>s h obj depth path st st1 wr st2.
        \<not> maxDepth s < depth \<Longrightarrow> obj \<noteq> VNil \<Longrightarrow> \<not> alreadyVisited (ValueOf obj) st \<Longrightarrow>
        callUserFuncs (userFuncs s) (ValueOf obj) (length (nodes st))
          (buildNode (ValueOf obj) path (markVisited (ValueOf obj) st)) = (None, st1) \<Longrightarrow>
        walkChildren s h (subvalues s h (ValueOf obj) path) (depth + 1) (length (nodes st)) st1 = (wr, st2) \<Longrightarrow>
        Q s h (subvalues s h (ValueOf obj) path) (depth + 1) (length (nodes st)) st1 wr st2 \<Longrightarrow>
        P s h obj depth path st
          (case wr of Inl f \<Rightarrow> Inl f | Inr u \<Rightarrow> Inr (Some (length (nodes st)))) st2"
    and Nil: "\<And>s h depth m st. Q s h [] depth m st (Inr ()) st"
    and panic: "\<And>s h newPath fv rest depth m st.
        \<not> (IsValid fv \<and> CanInterface fv) \<Longrightarrow>
        Q s h ((newPath, fv) # rest) depth m st (Inl Panic) st"
    and childFailed: "\<And>s h newPath fv rest depth m st f st1.
        IsValid fv \<and> CanInterface fv \<Longrightarrow>
        walkRecursive s h (content fv) depth newPath st = (Inl f, st1) \<Longrightarrow>
        P s h (content fv) depth newPath st (Inl f) st1 \<Longrightarrow>
        Q s h ((newPath, fv) # rest) depth m st (Inl f) st1"
    and continued: "\<And>s h newPath fv rest depth m st childMeta st1 r st2.
        IsValid fv \<and> CanInterface fv \<Longrightarrow>
        walkRecursive s h (content fv) depth newPath st = (Inr childMeta, st1) \<Longrightarrow>
        P s h (content fv) depth newPath st (Inr childMeta) st1 \<Longrightarrow>
        walkChildren s h rest depth m (attach m childMeta st1) = (r, st2) \<Longrightarrow>
        Q s h rest depth m (attach m childMeta st1) r st2 \<Longrightarrow>
        Q s h ((newPath, fv) # rest) depth m st r st2"
  shows "walkRecursive s h obj depth path st = (r, st') \<Longrightarrow> P s h obj depth path st r st'"
    and "walkChildren s h jobs depth m st = (r2, st') \<Longrightarrow> Q s h jobs depth m st r2 st'"
proof (induction s h obj depth path st and s h jobs depth m st arbitrary: r st' and r2 st'
    rule: walkRecursive_walkChildren.induct)
  case (1 s h obj depth path st)
  from "1.prems" show ?case
  proof (cases rule: walkRecursive_elim)
    case pruned
    then show ?thesis using assms(1) by simp
  next
    case (failed e)
    then show ?thesis using assms(2) by simp
  next
    case (descended st1 wr)
    have "Q s h (subvalues s h (ValueOf obj) path) (depth + 1) (length (nodes st)) st1 wr st'"
      using "1.IH" [of None st1 wr st'] descended by simp
    then show ?thesis using assms(3) descended by simp
  qed
next
  case (2 s h depth m st)
  then show ?case using assms(4) by simp
next
  case (3 s h newPath fv rest depth m st)
  from "3.prems" show ?case
  proof (cases rule: walkChildren_Cons_elim)
    case panic
    then show ?thesis using assms(5) by simp
  next
    case (childFailed f)
    have "P s h (content fv) depth newPath st (Inl f) st'"
      using "3.IH"(1) [of "content fv" "Inl f" st'] childFailed by (simp add: Interface_def)
    then show ?thesis using assms(6) childFailed by simp
  next
    case (continued childMeta st1)
    have i: "Interface fv = (Inr (content fv) :: 'e failure + val)"
      using continued(1) by (simp add: Interface_def)
    have p: "P s h (content fv) depth newPath st (Inr childMeta) st1"
      using "3.IH"(1) [OF i continued(2)] .
    have "Q s h rest depth m (attach m childMeta st1) r2 st'"
      using "3.IH"(2) [OF i continued(2) [symmetric] HOL.refl continued(3)] .
    then show ?thesis using assms(7) continued p by blast
  qed
qed


lemmas walk_induct = walk_induct_raw [rotated 7, consumes 1,
  case_names pruned failed descended Nil panic childFailed continued]

lemma walk_rel:
  fixes R :: "('u, 'e) wstate \<Rightarrow> ('u, 'e) wstate \<Rightarrow> bool"
  assumes R_refl: "\<And>st. R st st"
    and R_trans: "\<And>a b c. R a b \<Longrightarrow> R b c \<Longrightarrow> R a c"
    and visit: "\<And>(s :: ('u, 'e) walkSettings) obj path st r st1. obj \<noteq> VNil \<Longrightarrow> \<not> alreadyVisited (ValueOf obj) st \<Longrightarrow>
       callUserFuncs (userFuncs s) (ValueOf obj) (length (nodes st))
         (buildNode (ValueOf obj) path (markVisited (ValueOf obj) st)) = (r, st1) \<Longrightarrow> R st st1"
    and att: "\<And>m c st. R st (attach m c st)"
  shows "walkRecursive s h obj depth path st = (r, st') \<Longrightarrow> R st st'"
    and "walkChildren s h jobs depth m st = (r2, st') \<Longrightarrow> R st st'"
proof (induct rule: walk_induct)
  case (pruned s h obj depth path st)
  show ?case by (rule R_refl)
next
  case (failed s h obj depth path st e st1)
  then show ?case using visit by blast
next
  case (descended s h obj depth path st st1 wr st2)
  then show ?case using visit R_trans by blast
next
  case (Nil s h depth m st)
  then show ?case by (rule R_refl)
next
  case (panic s h newPath fv rest depth m st)
  show ?case by (rule R_refl)
next
  case (childFailed s h newPath fv rest depth m st f st1)
  then show ?case by simp
next
  case (continued s h newPath fv rest depth m st childMeta st1 r st2)
  then show ?case using att R_trans by blast
qed

section \<open>Callback errors\<close>

lemma visit_abort:
  assumes "callUserFuncs fns v (length (nodes st)) (buildNode v path (markVisited v st)) = (cr, st1)"
    and "\<forall>c \<in> set (trace st). c_result c = None"
  shows "case cr of
      None \<Rightarrow> \<forall>c \<in> set (trace st1). c_result c = None
    | Some e \<Rightarrow> trace st1 \<noteq> [] \<and> c_result (last (trace st1)) = Some e
        \<and> (\<forall>c \<in> set (butlast (trace st1)). c_result c = None)
        \<and> Suc (c_node (last (trace st1))) = length (nodes st1)"
proof -
  let ?st0 = "buildNode v path (markVisited v st)"
  have t0: "trace ?st0 = trace st" and n0: "length (nodes ?st0) = Suc (length (nodes st))"
    by (simp_all add: buildNode_def markVisited_def)
  from callUserFuncs_trace [OF assms(1)] obtain new where
    new: "trace st1 = trace ?st0 @ new"
      "\<forall>c \<in> set new. c_node c = length (nodes st) \<and> c_value c = v \<and> c_meta c = nodes ?st0 ! length (nodes st)"
      "\<forall>c \<in> set (butlast new). c_result c = None"
      "case cr of None \<Rightarrow> \<forall>c \<in> set new. c_result c = None
                   | Some e \<Rightarrow> new \<noteq> [] \<and> c_result (last new) = Some e"
    by blast
  have n1: "length (nodes st1) = Suc (length (nodes st))"
    using callUserFuncs_frame [OF assms(1)] n0 by simp
  show ?thesis
  proof (cases cr)
    case None
    then show ?thesis using new assms(2) t0 by auto
  next
    case (Some e)
    then have ne: "new \<noteq> []" and l: "c_result (last new) = Some e" using new(4) by simp_all
    have "last new \<in> set new" using ne by simp
    then have "c_node (last new) = length (nodes st)" using new(2) by blast
    moreover have "butlast (trace st1) = trace st @ butlast new"
      using new(1) t0 ne by (simp add: butlast_append)
    ultimately show ?thesis using Some ne l new(1,3) assms(2) t0 n1 by auto
  qed
qed

lemma walk_abort:
  fixes s :: "('u, 'e) walkSettings"
  shows "walkRecursive s h obj depth path st = (r, st') \<Longrightarrow>
      \<forall>c \<in> set (trace st). c_result c = None \<Longrightarrow>
      (case r of
         Inl (Err e) \<Rightarrow> trace st' \<noteq> [] \<and> c_result (last (trace st')) = Some e
           \<and> (\<forall>c \<in> set (butlast (trace st')). c_result c = None)
           \<and> Suc (c_node (last (trace st'))) = length (nodes st')
       | _ \<Rightarrow> \<forall>c \<in> set (trace st'). c_result c = None)"
    and "walkChildren s h jobs depth m st = (r2, st') \<Longrightarrow>
      \<forall>c \<in> set (trace st). c_result c = None \<Longrightarrow>
      (case r2 of
         Inl (Err e) \<Rightarrow> trace st' \<noteq> [] \<and> c_result (last (trace st')) = Some e
           \<and> (\<forall>c \<in> set (butlast (trace st')). c_result c = None)
           \<and> Suc (c_node (last (trace st'))) = length (nodes st')
       | _ \<Rightarrow> \<forall>c \<in> set (trace st'). c_result c = None)"
proof (induct rule: walk_induct)
  case (pruned s h obj depth path st)
  then show ?case by simp
next
  case (failed s h obj depth path st e st1)
  then show ?case using visit_abort [OF failed(4)] by simp
next
  case (descended s h obj depth path st st1 wr st2)
  have "\<forall>c \<in> set (trace st1). c_result c = None"
    using visit_abort [OF descended(4)] descended.prems by simp
  then show ?case using descended(6) by (auto split: sum.splits failure.splits)
next
  case (Nil s h depth m st)
  then show ?case by simp
next
  case (panic s h newPath fv rest depth m st)
  then show ?case by simp
next
  case (childFailed s h newPath fv rest depth m st f st1)
  then show ?case by simp
next
  case (continued s h newPath fv rest depth m st childMeta st1 r st2)
  then show ?case by simp
qed

lemma Walk_cases:
  assumes "Walk h obj options u = (out, st)"
  obtains (nilRoot) "obj = VNil" "out = Panicked" "st = initState u"
  | (ran) t r where "TypeOf obj = Some t"
      "walkRecursive (applyOptions options) h obj 0 (if tName t = [] then tString t else tName t)
         (initState u) = (r, st)"
      "out = (case r of Inl Panic \<Rightarrow> Panicked | Inl (Err err) \<Rightarrow> Returned None None (Some err)
         | Inr fieldMap \<Rightarrow> Returned fieldMap (Some (flatMap st)) None)"
  using assms
  by (cases obj) (auto simp: Walk_def split: prod.splits sum.splits failure.splits)

text \<open>
  Claim C1. If a callback invocation returns an error during a walk, \<open>Walk\<close> returns
  exactly that error with a nil root node and a nil flat map; the failing invocation is
  the last callback invocation of the walk, and the node it was made for is the last
  node built, so nothing is visited after it.
\<close>

theorem C1_callback_error_aborts:
  fixes st :: "('u, 'e) wstate"
  assumes "Walk h obj options u = (out, st)"
    and "i < length (trace st)"
    and "c_result (trace st ! i) = Some err"
  shows "out = Returned None None (Some err) \<and> Suc i = length (trace st)
    \<and> Suc (c_node (trace st ! i)) = length (nodes st)"
  using assms(1)
proof (cases rule: Walk_cases)
  case nilRoot
  then show ?thesis using assms(2) by (simp add: initState_def)
next
  case (ran t r)
  have clean: "\<forall>c \<in> set (trace (initState u :: ('u, 'e) wstate)). c_result c = None"
    by (simp add: initState_def)
  note post = walk_abort(1) [OF ran(2) clean]
  have dirty: "\<not> (\<forall>c \<in> set (trace st). c_result c = None)"
    using assms(2,3) by (metis nth_mem option.distinct(1))
  from post dirty obtain e where r: "r = Inl (Err e)"
    by (cases r; cases "projl r") (auto split: failure.splits)
  from post r have ne: "trace st \<noteq> []" and l: "c_result (last (trace st)) = Some e"
    and b: "\<forall>c \<in> set (butlast (trace st)). c_result c = None"
    and n: "Suc (c_node (last (trace st))) = length (nodes st)" by simp_all
  have "\<not> i < length (butlast (trace st))"
  proof
    assume "i < length (butlast (trace st))"
    then have "butlast (trace st) ! i \<in> set (butlast (trace st))" by simp
    moreover have "butlast (trace st) ! i = trace st ! i"
      using \<open>i < length (butlast (trace st))\<close> by (simp add: nth_butlast)
    ultimately show False using b assms(3) by auto
  qed
  then have i: "Suc i = length (trace st)" using assms(2) by simp
  then have "trace st ! i = last (trace st)" using ne by (metis diff_Suc_1 last_conv_nth)
  then show ?thesis using i l n r ran(3) assms(3) by simp
qed


theorem C1_callback_error_aborts_witness:
  "fst (Walk emptyHeap intAndString [WithUserFunc (failAt ''S.A'' ''boom'')] [])
      = Returned None None (Some ''boom'')
   \<and> Suc 1 = length (trace (snd (Walk emptyHeap intAndString [WithUserFunc (failAt ''S.A'' ''boom'')] [])))
   \<and> Suc (c_node (trace (snd (Walk emptyHeap intAndString [WithUserFunc (failAt ''S.A'' ''boom'')] [])) ! 1))
      = length (nodes (snd (Walk emptyHeap intAndString [WithUserFunc (failAt ''S.A'' ''boom'')] [])))"
proof -
  let ?w = "Walk emptyHeap intAndString [WithUserFunc (failAt ''S.A'' ''boom'')] []"
  have run: "?w = (fst ?w, snd ?w)" by simp
  have i: "1 < length (trace (snd ?w))" by (simp add: eval_defs intAndString_def)
  have e: "c_result (trace (snd ?w) ! 1) = Some ''boom''" by (simp add: eval_defs intAndString_def)
  show ?thesis using C1_callback_error_aborts [OF run i e] by simp
qed

section \<open>Reference cycles\<close>

lemma ptrAddrs_append [simp]: "ptrAddrs (xs @ ys) = ptrAddrs xs @ ptrAddrs ys"
  by (simp add: ptrAddrs_def)

lemma ptrAddrs_single: "ptrAddrs [x] = (case x of VPtr t a \<Rightarrow> (if a = 0 then [] else [a]) | _ \<Rightarrow> [])"
  by (simp add: ptrAddrs_def)

lemma visit_ptrs:
  assumes "distinct (ptrAddrs (visits st)) \<and> set (ptrAddrs (visits st)) \<subseteq> visited st"
    and "\<not> alreadyVisited (ValueOf obj) st"
  shows "distinct (ptrAddrs (visits (buildNode (ValueOf obj) path (markVisited (ValueOf obj) st))))
    \<and> set (ptrAddrs (visits (buildNode (ValueOf obj) path (markVisited (ValueOf obj) st))))
        \<subseteq> visited (buildNode (ValueOf obj) path (markVisited (ValueOf obj) st))"
  using assms
  by (cases obj) (auto simp: buildNode_def markVisited_def alreadyVisited_def ptrAddrs_single)

lemma walk_ptrs:
  fixes st :: "('u, 'e) wstate"
  assumes "walkRecursive s h obj depth path st = (r, st')"
    and "distinct (ptrAddrs (visits st)) \<and> set (ptrAddrs (visits st)) \<subseteq> visited st"
  shows "distinct (ptrAddrs (visits st')) \<and> set (ptrAddrs (visits st')) \<subseteq> visited st'"
proof -
  let ?I = "\<lambda>st :: ('u, 'e) wstate.
    distinct (ptrAddrs (visits st)) \<and> set (ptrAddrs (visits st)) \<subseteq> visited st"
  have "?I st \<longrightarrow> ?I st'"
  proof (rule walk_rel(1) [where R = "\<lambda>a b. ?I a \<longrightarrow> ?I b", OF _ _ _ _ assms(1)])
    fix s :: "('u, 'e) walkSettings" and obj path and st st1 :: "('u, 'e) wstate" and r
    assume "obj \<noteq> VNil" and nv: "\<not> alreadyVisited (ValueOf obj) st"
      and c: "callUserFuncs (userFuncs s) (ValueOf obj) (length (nodes st))
         (buildNode (ValueOf obj) path (markVisited (ValueOf obj) st)) = (r, st1)"
    show "?I st \<longrightarrow> ?I st1"
      using visit_ptrs [OF _ nv, of path] callUserFuncs_frame [OF c] by simp
  qed simp_all
  then show ?thesis using assms(2) by simp
qed

text \<open>
  Claim C2, amended. \<open>walkRecursive\<close> and \<open>walkChildren\<close> are total functions (their
  termination is proved above from the depth counter), so \<open>Walk\<close> returns on every
  heap, self-referential or not. Identity is tracked for pointers only: a non-nil
  pointer's address is in the visited set once a node has been built for it, and no
  second node is ever built for a pointer to the same address, so a pointer back to an
  ancestor is not descended into and each pointer identity is visited at most once.
  Cycles that run through maps or slices alone are cut by the depth ceiling only.
\<close>

theorem C2_cycle_guard:
  fixes st :: "('u, 'e) wstate"
  assumes "Walk h obj options u = (out, st)"
  shows "distinct (ptrAddrs (visits st)) \<and> set (ptrAddrs (visits st)) \<subseteq> visited st
    \<and> (\<forall>(s :: ('u, 'e) walkSettings) t a depth path (st0 :: ('u, 'e) wstate).
          a \<noteq> 0 \<longrightarrow> a \<in> visited st0 \<longrightarrow>
          walkRecursive s h (VPtr t a) depth path st0 = (Inr None, st0))"
proof -
  have "distinct (ptrAddrs (visits st)) \<and> set (ptrAddrs (visits st)) \<subseteq> visited st"
    using assms
  proof (cases rule: Walk_cases)
    case nilRoot
    then show ?thesis by (simp add: initState_def ptrAddrs_def)
  next
    case (ran t r)
    show ?thesis
      by (rule walk_ptrs [OF ran(2)]) (simp add: initState_def ptrAddrs_def)
  qed
  moreover have "walkRecursive s h (VPtr t a) depth path st0 = (Inr None, st0)"
    if "a \<noteq> 0" "a \<in> visited st0"
    for s :: "('u, 'e) walkSettings" and t a depth path and st0 :: "('u, 'e) wstate"
    using that by (simp add: walkRecursive.simps alreadyVisited_def)
  ultimately show ?thesis by blast
qed

theorem C2_cycle_guard_witness:
  "visits (snd (Walk selfHeap selfPointer [WithUserFunc logPath] [] :: unit outcome \<times> _))
     = [selfPointer, pointee selfHeap 1]
   \<and> ustate (snd (Walk selfHeap selfPointer [WithUserFunc logPath] [] :: unit outcome \<times> _))
     = [''*main.N'', ''*main.N.*'']
   \<and> distinct (ptrAddrs (visits (snd (Walk selfHeap selfPointer [WithUserFunc logPath] [] :: unit outcome \<times> _))))
   \<and> set (ptrAddrs (visits (snd (Walk selfHeap selfPointer [WithUserFunc logPath] [] :: unit outcome \<times> _))))
       \<subseteq> visited (snd (Walk selfHeap selfPointer [WithUserFunc logPath] [] :: unit outcome \<times> _))"
proof -
  let ?w = "Walk selfHeap selfPointer [WithUserFunc logPath] [] :: unit outcome \<times> _"
  have run: "?w = (fst ?w, snd ?w)" by simp
  have "visits (snd ?w) = [selfPointer, pointee selfHeap 1]"
    by (simp add: eval_defs selfHeap_def selfPointer_def)
  moreover have "ustate (snd ?w) = [''*main.N'', ''*main.N.*'']"
    by (simp add: eval_defs selfHeap_def selfPointer_def)
  ultimately show ?thesis using C2_cycle_guard [OF run] by simp
qed

text \<open>
  Claim C2 as stated fails: only pointers are identity-tracked. A map that holds itself
  is walked again and again until the depth ceiling stops the descent: with a maximum
  depth of 2 the same map is visited three times, under three paths.
\<close>

theorem C2_map_cycle_revisited:
  "visits (snd (Walk selfMapHeap selfMap [MaxDepth 2, WithUserFunc logPath] [] :: unit outcome \<times> _))
     = [selfMap, selfMap, selfMap]
   \<and> ustate (snd (Walk selfMapHeap selfMap [MaxDepth 2, WithUserFunc logPath] [] :: unit outcome \<times> _))
     = [''map[string]interface {}'', ''map[string]interface {}[self]'',
        ''map[string]interface {}[self][self]'']
   \<and> visited (snd (Walk selfMapHeap selfMap [MaxDepth 2, WithUserFunc logPath] [] :: unit outcome \<times> _))
     = {}"
  by (simp add: eval_defs selfMapHeap_def selfMap_def)

section \<open>The depth ceiling\<close>

lemma pruned_beyond_maxDepth:
  "maxDepth s < depth \<Longrightarrow> walkRecursive s h obj depth path st = (Inr None, st)"
  by (simp add: walkRecursive.simps)

lemma children_beyond_maxDepth:
  "maxDepth s < depth \<Longrightarrow> walkChildren s h jobs depth m st = (r, st') \<Longrightarrow> st' = st"
proof (induction jobs arbitrary: r st')
  case Nil
  then show ?case by simp
next
  case (Cons job jobs)
  obtain newPath fv where job: "job = (newPath, fv)" by (cases job)
  from Cons.prems(2) [unfolded job] show ?case
  proof (cases rule: walkChildren_Cons_elim)
    case panic
    then show ?thesis by simp
  next
    case (childFailed f)
    then show ?thesis using pruned_beyond_maxDepth [OF Cons.prems(1)] by simp
  next
    case (continued childMeta st1)
    then have "childMeta = None" "st1 = st"
      using pruned_beyond_maxDepth [OF Cons.prems(1), of h "content fv" newPath st] by simp_all
    then show ?thesis using continued(3) Cons.IH [OF Cons.prems(1)] by simp
  qed
qed

lemma seenPaths_attach [simp]: "seenPaths (attach m c st) = seenPaths st"
  by (simp add: seenPaths_def del: set_map)

lemma visit_seen:
  assumes "callUserFuncs fns v (length (nodes st)) (buildNode v path (markVisited v st)) = (cr, st1)"
  shows "seenPaths st1 \<subseteq> insert path (seenPaths st)"
proof -
  let ?st0 = "buildNode v path (markVisited v st)"
  from callUserFuncs_trace [OF assms] obtain new where
    new: "trace st1 = trace ?st0 @ new"
      "\<forall>c \<in> set new. c_node c = length (nodes st) \<and> c_value c = v \<and> c_meta c = nodes ?st0 ! length (nodes st)"
    by blast
  have "nodes ?st0 ! length (nodes st) = newMeta v path"
    by (simp add: buildNode_def markVisited_def)
  then have "\<forall>c \<in> set new. Path (c_meta c) = path" using new(2) by (simp add: newMeta_def)
  moreover have "trace ?st0 = trace st" "nodes ?st0 = nodes st @ [newMeta v path]"
    "flatMap ?st0 = (flatMap st)(path \<mapsto> length (nodes st))"
    by (simp_all add: buildNode_def markVisited_def)
  ultimately show ?thesis
    using callUserFuncs_frame [OF assms] new(1)
    by (auto simp: seenPaths_def newMeta_def split: if_splits)
qed

lemma leaf_seen:
  assumes "walkRecursive s h obj (maxDepth s) path st = (r, st')"
  shows "seenPaths st' \<subseteq> insert path (seenPaths st)"
  using assms
proof (cases rule: walkRecursive_elim)
  case pruned
  then show ?thesis by auto
next
  case (failed e)
  then show ?thesis using visit_seen by blast
next
  case (descended st1 wr)
  have "st' = st1" by (rule children_beyond_maxDepth [OF _ descended(5)]) simp
  then show ?thesis using visit_seen [OF descended(4)] by simp
qed

lemma members_seen:
  "walkChildren s h jobs (maxDepth s) m st = (r, st') \<Longrightarrow>
     seenPaths st' \<subseteq> seenPaths st \<union> fst ` set jobs"
proof (induction jobs arbitrary: r st st')
  case Nil
  then show ?case by simp
next
  case (Cons job jobs)
  obtain newPath fv where job: "job = (newPath, fv)" by (cases job)
  from Cons.prems [unfolded job] show ?case
  proof (cases rule: walkChildren_Cons_elim)
    case panic
    then show ?thesis by auto
  next
    case (childFailed f)
    then show ?thesis using leaf_seen [of s h "content fv" newPath st] job by auto
  next
    case (continued childMeta st1)
    have "seenPaths st1 \<subseteq> insert newPath (seenPaths st)"
      using leaf_seen [OF continued(2)] .
    moreover have "seenPaths st' \<subseteq> seenPaths (attach m childMeta st1) \<union> fst ` set jobs"
      using Cons.IH [OF continued(3)] .
    ultimately show ?thesis using job by auto
  qed
qed

lemma subvalues_struct_paths:
  "fst ` set (subvalues s h (ValueOf (VStruct t fs)) path)
     \<subseteq> (\<lambda>fx. path @ ''.'' @ fName (fst fx)) ` set fs"
  by (force simp: subvalues_def)

text \<open>
  Claim C3. With a maximum depth of 1, walking a struct touches (through nodes, flat-map
  keys or callbacks) only the root path and the paths of the root's own fields, and the
  returned flat map has no other key; in general every call whose depth counter exceeds
  the maximum returns the nil node and leaves the state as it was.
\<close>

theorem C3_max_depth_one:
  fixes st :: "('u, 'e) wstate"
  assumes "maxDepth (applyOptions options) = 1"
    and "Walk h (VStruct t fs) options u = (out, st)"
  shows "seenPaths st \<subseteq> insert (if tName t = [] then tString t else tName t)
        ((\<lambda>fx. (if tName t = [] then tString t else tName t) @ ''.'' @ fName (fst fx)) ` set fs)
    \<and> (\<forall>root fm err. out = Returned root (Some fm) err \<longrightarrow> dom fm \<subseteq> seenPaths st)
    \<and> (\<forall>obj depth path (st0 :: ('u, 'e) wstate). 1 < depth \<longrightarrow>
          walkRecursive (applyOptions options) h obj depth path st0 = (Inr None, st0))"
proof -
  let ?s = "applyOptions options"
  let ?root = "if tName t = [] then tString t else tName t"
  from assms(2) obtain r where
    run: "walkRecursive ?s h (VStruct t fs) 0 ?root (initState u) = (r, st)"
    and out: "out = (case r of Inl Panic \<Rightarrow> Panicked | Inl (Err err) \<Rightarrow> Returned None None (Some err)
         | Inr fieldMap \<Rightarrow> Returned fieldMap (Some (flatMap st)) None)"
    by (cases rule: Walk_cases) auto
  have empty: "seenPaths (initState u :: ('u, 'e) wstate) = {}"
    by (simp add: seenPaths_def initState_def)
  have "seenPaths st \<subseteq> insert ?root ((\<lambda>fx. ?root @ ''.'' @ fName (fst fx)) ` set fs)"
    using run
  proof (cases rule: walkRecursive_elim)
    case pruned
    then show ?thesis using empty by simp
  next
    case (failed e)
    then show ?thesis using visit_seen [OF failed(4)] empty by auto
  next
    case (descended st1 wr)
    have "seenPaths st1 \<subseteq> {?root}" using visit_seen [OF descended(4)] empty by simp
    moreover have "seenPaths st \<subseteq> seenPaths st1 \<union> fst ` set (subvalues ?s h (ValueOf (VStruct t fs)) ?root)"
      using members_seen [of ?s h _ "length (nodes (initState u :: ('u, 'e) wstate))" st1 wr st]
        descended(5) assms(1) by simp
    ultimately show ?thesis using subvalues_struct_paths [of ?s h t fs ?root] by blast
  qed
  moreover have "\<forall>root fm err. out = Returned root (Some fm) err \<longrightarrow> dom fm \<subseteq> seenPaths st"
    using out by (auto simp: seenPaths_def split: sum.splits failure.splits)
  moreover have "\<forall>obj depth path (st0 :: ('u, 'e) wstate). 1 < depth \<longrightarrow>
      walkRecursive ?s h obj depth path st0 = (Inr None, st0)"
    using pruned_beyond_maxDepth [of ?s] assms(1) by simp
  ultimately show ?thesis by blast
qed


theorem C3_max_depth_one_witness:
  "maxDepth (applyOptions [MaxDepth 1, WithUserFunc logPath] :: (string list, unit) walkSettings) = 1
   \<and> seenPaths (snd (Walk emptyHeap threeLevels [MaxDepth 1, WithUserFunc logPath] []
         :: unit outcome \<times> _)) \<subseteq> {''T'', ''T.S1''}
   \<and> ustate (snd (Walk emptyHeap threeLevels [MaxDepth 1, WithUserFunc logPath] []
         :: unit outcome \<times> _)) = [''T'', ''T.S1'']"
proof -
  let ?opts = "[MaxDepth 1, WithUserFunc logPath] :: (string list, unit) Option list"
  let ?w = "Walk emptyHeap threeLevels ?opts []"
  have m: "maxDepth (applyOptions ?opts) = 1"
    by (simp add: applyOptions_def MaxDepth_def WithUserFunc_def)
  have run: "Walk emptyHeap (VStruct (namedType 16 ''T'')
       [(exported ''S1'', VStruct (unnamedType 17 ''struct { S2 struct { SF1 int } }'')
          [(exported ''S2'', VStruct (unnamedType 18 ''struct { SF1 int }'')
             [(exported ''SF1'', VScalar intType)])])]) ?opts [] = (fst ?w, snd ?w)"
    by (simp add: threeLevels_def)
  have u: "ustate (snd ?w) = [''T'', ''T.S1'']"
    by (simp add: eval_defs threeLevels_def)
  show ?thesis using C3_max_depth_one [OF m run] m u
    by (simp add: namedType_def exported_def)
qed

section \<open>What a callback is given\<close>

lemma attach_unlinked:
  "i < length (nodes st) \<Longrightarrow>
     (nodes (attach m c st) ! i)\<lparr>Parent := None, Children := []\<rparr>
       = (nodes st ! i)\<lparr>Parent := None, Children := []\<rparr>"
proof -
  assume i: "i < length (nodes st)"
  have "map (\<lambda>n. n\<lparr>Parent := None, Children := []\<rparr>) (nodes (attach m c st))
      = map (\<lambda>n. n\<lparr>Parent := None, Children := []\<rparr>) (nodes st)"
    by (rule attach_map) simp_all
  then have "map (\<lambda>n. n\<lparr>Parent := None, Children := []\<rparr>) (nodes (attach m c st)) ! i
      = map (\<lambda>n. n\<lparr>Parent := None, Children := []\<rparr>) (nodes st) ! i" by simp
  then show ?thesis using i by simp
qed

lemma visit_copies:
  fixes st :: "('u, 'e) wstate"
  assumes "callUserFuncs fns v (length (nodes st)) (buildNode v path (markVisited v st)) = (cr, st1)"
    and "\<forall>c \<in> set (trace st). c_node c < length (nodes st)
        \<and> (nodes st ! c_node c)\<lparr>Parent := None, Children := []\<rparr> = c_meta c"
  shows "\<forall>c \<in> set (trace st1). c_node c < length (nodes st1)
        \<and> (nodes st1 ! c_node c)\<lparr>Parent := None, Children := []\<rparr> = c_meta c"
proof -
  let ?st0 = "buildNode v path (markVisited v st)"
  from callUserFuncs_trace [OF assms(1)] obtain new where
    tr: "trace st1 = trace ?st0 @ new"
      "\<forall>c \<in> set new. c_node c = length (nodes st) \<and> c_value c = v \<and> c_meta c = nodes ?st0 ! length (nodes st)"
    by blast
  have n0: "nodes ?st0 = nodes st @ [newMeta v path]" and t0: "trace ?st0 = trace st"
    by (simp_all add: buildNode_def markVisited_def)
  have n1: "nodes st1 = nodes st @ [newMeta v path]"
    using callUserFuncs_frame [OF assms(1)] n0 by simp
  show ?thesis
  proof
    fix c assume "c \<in> set (trace st1)"
    then consider (old) "c \<in> set (trace st)" | (new) "c \<in> set new" using tr(1) t0 by auto
    then show "c_node c < length (nodes st1)
        \<and> (nodes st1 ! c_node c)\<lparr>Parent := None, Children := []\<rparr> = c_meta c"
    proof cases
      case old
      then show ?thesis using assms(2) n1 by (auto simp: nth_append)
    next
      case new
      then have "c_node c = length (nodes st)" "c_meta c = newMeta v path"
        using tr(2) n0 by simp_all
      then show ?thesis using n1 by (simp add: newMeta_def)
    qed
  qed
qed

lemma walk_copies:
  fixes st :: "('u, 'e) wstate"
  assumes "walkRecursive s h obj depth path st = (r, st')"
    and "\<forall>c \<in> set (trace st). c_node c < length (nodes st)
        \<and> (nodes st ! c_node c)\<lparr>Parent := None, Children := []\<rparr> = c_meta c"
  shows "\<forall>c \<in> set (trace st'). c_node c < length (nodes st')
        \<and> (nodes st' ! c_node c)\<lparr>Parent := None, Children := []\<rparr> = c_meta c"
proof -
  let ?K = "\<lambda>st :: ('u, 'e) wstate. \<forall>c \<in> set (trace st). c_node c < length (nodes st)
        \<and> (nodes st ! c_node c)\<lparr>Parent := None, Children := []\<rparr> = c_meta c"
  have "?K st \<longrightarrow> ?K st'"
  proof (rule walk_rel(1) [where R = "\<lambda>a b. ?K a \<longrightarrow> ?K b", OF _ _ _ _ assms(1)])
    fix s :: "('u, 'e) walkSettings" and obj path and st st1 :: "('u, 'e) wstate" and r
    assume "callUserFuncs (userFuncs s) (ValueOf obj) (length (nodes st))
         (buildNode (ValueOf obj) path (markVisited (ValueOf obj) st)) = (r, st1)"
    then show "?K st \<longrightarrow> ?K st1" using visit_copies by blast
  next
    fix m c and st :: "('u, 'e) wstate"
    show "?K st \<longrightarrow> ?K (attach m c st)" by (simp add: attach_unlinked)
  qed simp_all
  then show ?thesis using assms(2) by simp
qed

text \<open>
  Claim C10. Every callback invocation is handed a copy of the node as it stands when it
  has just been built: its \<open>Parent\<close> is nil and its \<open>Children\<close> are empty. Whatever the
  callbacks do, at the end of the walk the node in the store still carries exactly the
  data that was handed over; it differs from the copy only in the links attached later.
\<close>

theorem C10_callback_gets_copy:
  fixes st :: "('u, 'e) wstate"
  assumes "Walk h obj options u = (out, st)"
    and "c \<in> set (trace st)"
  shows "Parent (c_meta c) = None \<and> Children (c_meta c) = []
    \<and> c_node c < length (nodes st)
    \<and> (nodes st ! c_node c)\<lparr>Parent := None, Children := []\<rparr> = c_meta c"
proof -
  have "\<forall>c \<in> set (trace st). c_node c < length (nodes st)
        \<and> (nodes st ! c_node c)\<lparr>Parent := None, Children := []\<rparr> = c_meta c"
    using assms(1)
  proof (cases rule: Walk_cases)
    case nilRoot
    then show ?thesis by (simp add: initState_def)
  next
    case (ran t r)
    show ?thesis by (rule walk_copies [OF ran(2)]) (simp add: initState_def)
  qed
  then have k: "c_node c < length (nodes st)
      \<and> (nodes st ! c_node c)\<lparr>Parent := None, Children := []\<rparr> = c_meta c"
    using assms(2) by blast
  then have "Parent (c_meta c) = None \<and> Children (c_meta c) = []"
    by (metis FieldMeta.select_convs(6,7) FieldMeta.surjective FieldMeta.update_convs(6,7))
  then show ?thesis using k by simp
qed

theorem C10_callback_gets_copy_witness:
  "c_meta (trace (snd (Walk emptyHeap intAndString [WithUserFunc logPath] [] :: unit outcome \<times> _)) ! 0)
     = newMeta (ValueOf intAndString) ''S''
   \<and> Children (nodes (snd (Walk emptyHeap intAndString [WithUserFunc logPath] [] :: unit outcome \<times> _)) ! 0) = [1, 2]
   \<and> Parent (c_meta (trace (snd (Walk emptyHeap intAndString [WithUserFunc logPath] [] :: unit outcome \<times> _)) ! 0)) = None
   \<and> Children (c_meta (trace (snd (Walk emptyHeap intAndString [WithUserFunc logPath] [] :: unit outcome \<times> _)) ! 0)) = []"
proof -
  let ?w = "Walk emptyHeap intAndString [WithUserFunc logPath] [] :: unit outcome \<times> _"
  have run: "?w = (fst ?w, snd ?w)" by simp
  have len: "length (trace (snd ?w)) = 3" by (simp add: eval_defs intAndString_def)
  then have c: "trace (snd ?w) ! 0 \<in> set (trace (snd ?w))" by simp
  have a: "c_meta (trace (snd ?w) ! 0) = newMeta (ValueOf intAndString) ''S''"
    by (simp add: eval_defs intAndString_def)
  have b: "Children (nodes (snd ?w) ! 0) = [1, 2]"
    by (simp add: eval_defs intAndString_def)
  show ?thesis using C10_callback_gets_copy [OF run c] a b by simp
qed

section \<open>Filters, unexported fields and the privacy flag\<close>

text \<open>
  Claim C4. \<open>WithTypeFilter\<close> stores the predicate, but \<open>walkRecursive\<close> never reads
  \<open>typeFilter\<close>. On \<^verbatim>\<open>S{A int; B string}\<close> with \<^verbatim>\<open>TypeIsOneOf(int)\<close> the string member,
  which the filter rejects, is still visited: the callback is called for \<^verbatim>\<open>S.B\<close> and the
  flat map has that key.
\<close>

theorem C4_type_filter_ignored:
  "\<not> TypeIsOneOf [intType] stringType
   \<and> ustate (snd (Walk emptyHeap intAndString
        [WithUserFunc logPath, WithTypeFilter (TypeIsOneOf [intType])] [] :: unit outcome \<times> _))
      = [''S'', ''S.A'', ''S.B'']
   \<and> (\<exists>fm. fst (Walk emptyHeap intAndString
        [WithUserFunc logPath, WithTypeFilter (TypeIsOneOf [intType])] [] :: unit outcome \<times> _)
      = Returned (Some 0) (Some fm) None \<and> fm ''S.B'' = Some 2)"
  by (simp add: eval_defs intAndString_def)

text \<open>
  Claim C5. \<open>WithMetaFilter\<close> stores the predicate, but \<open>walkRecursive\<close> never reads
  \<open>metaFilter\<close>. With a filter that rejects the node of path \<^verbatim>\<open>S.B\<close>, that node is
  still handed to the callback, stored in the flat map and attached as a child of the
  root.
\<close>

theorem C5_meta_filter_ignored:
  "\<not> (\<lambda>meta. Path meta \<noteq> ''S.B'') (newMeta (ValueOf (VScalar stringType)) ''S.B'')
   \<and> ustate (snd (Walk emptyHeap intAndString
        [WithUserFunc logPath, WithMetaFilter (\<lambda>meta. Path meta \<noteq> ''S.B'')] [] :: unit outcome \<times> _))
      = [''S'', ''S.A'', ''S.B'']
   \<and> Children (nodes (snd (Walk emptyHeap intAndString
        [WithUserFunc logPath, WithMetaFilter (\<lambda>meta. Path meta \<noteq> ''S.B'')] [] :: unit outcome \<times> _)) ! 0)
      = [1, 2]
   \<and> (\<exists>fm. fst (Walk emptyHeap intAndString
        [WithUserFunc logPath, WithMetaFilter (\<lambda>meta. Path meta \<noteq> ''S.B'')] [] :: unit outcome \<times> _)
      = Returned (Some 0) (Some fm) None \<and> fm ''S.B'' = Some 2)"
  by (simp add: eval_defs intAndString_def)

text \<open>
  Claim C6. Under the default settings and with no callback at all, walking a struct that
  has an unexported field panics: the field loop calls \<^verbatim>\<open>Interface()\<close> on the field's
  value before any guard of the recursive call is reached. A nil root panics as well.
\<close>

theorem C6_unexported_field_panics:
  "fst (Walk emptyHeap privateField [] () :: unit outcome \<times> _) = Panicked
   \<and> fst (Walk emptyHeap VNil [] () :: unit outcome \<times> _) = Panicked"
  by (simp add: eval_defs privateField_def)

text \<open>A map with a key that differs from itself makes the walk panic as well.\<close>

lemma unfound_key_panics:
  "fst (Walk nanHeap nanMap [] () :: unit outcome \<times> _) = Panicked"
  by (simp add: eval_defs nanHeap_def nanMap_def)

text \<open>
  Claim C7. \<open>IsPrivate\<close> is computed from the package path of the value's type, not from
  the field: the exported field \<^verbatim>\<open>A\<close> of \<^verbatim>\<open>T{A Inner}\<close>, whose type \<^verbatim>\<open>Inner\<close> is defined
  in package \<^verbatim>\<open>main\<close>, gets a node with \<open>IsPrivate\<close> set.
\<close>

theorem C7_exported_field_marked_private:
  "fPkgPath (exported ''A'') = []
   \<and> (\<exists>fm st. Walk emptyHeap namedInner [] () = (Returned (Some 0) (Some fm) (None :: unit option), st)
        \<and> fm ''T.A'' = Some 1 \<and> IsPrivate (nodes st ! 1))"
  by (simp add: eval_defs namedInner_def)

section \<open>Path syntax\<close>

lemma digit_distinct: "distinct ''0123456789''" by simp

lemma digit_inj: "i < 10 \<Longrightarrow> j < 10 \<Longrightarrow> ''0123456789'' ! i = ''0123456789'' ! j \<Longrightarrow> i = j"
  using digit_distinct by (simp add: nth_eq_iff_index_eq del: distinct.simps)

lemma digit_plain: "i < 10 \<Longrightarrow> ''0123456789'' ! i \<noteq> CHR '']''"
proof -
  assume "i < 10"
  then have "''0123456789'' ! i \<in> set ''0123456789''" by (intro nth_mem) simp
  then show ?thesis by auto
qed

lemma decimal_nonempty: "decimal n \<noteq> []"
  by (subst decimal.simps) simp

lemma decimal_plain: "plainKey (decimal n)"
proof (induction n rule: decimal.induct)
  case (1 n)
  show ?case
  proof (cases "n < 10")
    case True
    then show ?thesis using digit_plain [of n] by (subst decimal.simps) (simp add: plainKey_def)
  next
    case False
    then show ?thesis using "1.IH" digit_plain [of "n mod 10"]
      by (subst decimal.simps) (simp add: plainKey_def)
  qed
qed

lemma decimal_inj: "decimal m = decimal n \<Longrightarrow> m = n"
proof (induction m arbitrary: n rule: decimal.induct)
  case (1 m)
  show ?case
  proof (cases "m < 10")
    case m: True
    show ?thesis
    proof (cases "n < 10")
      case True
      then show ?thesis using m "1.prems" digit_inj [of m n]
        by (simp add: decimal.simps [of m] decimal.simps [of n])
    next
      case False
      then show ?thesis using m "1.prems" decimal_nonempty [of "n div 10"]
        by (simp add: decimal.simps [of m] decimal.simps [of n])
    qed
  next
    case m: False
    show ?thesis
    proof (cases "n < 10")
      case True
      then show ?thesis using m "1.prems" decimal_nonempty [of "m div 10"]
        by (simp add: decimal.simps [of m] decimal.simps [of n])
    next
      case False
      then have "decimal (m div 10) = decimal (n div 10)"
        and d: "''0123456789'' ! (m mod 10) = ''0123456789'' ! (n mod 10)"
        using m "1.prems" by (simp_all add: decimal.simps [of m] decimal.simps [of n])
      then have "m div 10 = n div 10" using "1.IH" m by blast
      moreover have "m mod 10 = n mod 10" using d digit_inj by simp
      ultimately show ?thesis by (metis div_mult_mod_eq)
    qed
  qed
qed

lemma key_cut:
  assumes "plainKey k" "plainKey k'" "k @ '']'' @ x = k' @ '']'' @ y"
  shows "k = k'"
proof -
  have "takeWhile (\<lambda>c. c \<noteq> CHR '']'') (k @ CHR '']'' # x) = k"
    using assms(1) by (auto simp: plainKey_def takeWhile_tail)
  moreover have "takeWhile (\<lambda>c. c \<noteq> CHR '']'') (k' @ CHR '']'' # y) = k'"
    using assms(2) by (auto simp: plainKey_def takeWhile_tail)
  ultimately show ?thesis using assms(3) by simp
qed

lemma name_cut:
  assumes "plainName n" "plainName n'" "pathSuffix x" "pathSuffix y" "n @ x = n' @ y"
  shows "n = n'"
proof -
  have cut: "takeWhile (\<lambda>c. c \<noteq> CHR ''.'' \<and> c \<noteq> CHR ''['') (n @ x) = n"
    if "plainName n" "pathSuffix x" for n x
  proof (cases x)
    case Nil
    then show ?thesis using that(1) by (auto simp: plainName_def)
  next
    case (Cons c cs)
    then have "\<not> (c \<noteq> CHR ''.'' \<and> c \<noteq> CHR ''['')" using that(2) by (simp add: pathSuffix_def)
    then show ?thesis using that(1) Cons
      by (subst Cons, subst takeWhile_tail) (auto simp: plainName_def)
  qed
  show ?thesis using cut [OF assms(1,3)] cut [OF assms(2,4)] assms(5) by simp
qed

lemma apart_map:
  assumes "distinct ks"
    and "\<And>k k' x y. k \<in> set ks \<Longrightarrow> k' \<in> set ks \<Longrightarrow> pathSuffix x \<Longrightarrow> pathSuffix y \<Longrightarrow>
           f k @ x = f k' @ y \<Longrightarrow> k = k'"
  shows "apart (map f ks)"
proof -
  have "inj_on f (set ks)"
  proof (rule inj_onI)
    fix k k' assume "k \<in> set ks" "k' \<in> set ks" "f k = f k'"
    then show "k = k'" using assms(2) [of k k' "[]" "[]"] by (simp add: pathSuffix_def)
  qed
  then have "distinct (map f ks)" using assms(1) by (simp add: distinct_map)
  moreover have "\<forall>p \<in> set (map f ks). \<forall>q \<in> set (map f ks). p \<noteq> q \<longrightarrow>
        (\<forall>x y. pathSuffix x \<longrightarrow> pathSuffix y \<longrightarrow> p @ x \<noteq> q @ y)"
    using assms(2) by auto
  ultimately show ?thesis by (simp add: apart_def)
qed

lemma bracket_apart:
  assumes "distinct ks" "\<forall>k \<in> set ks. plainKey k"
  shows "apart (map (\<lambda>k. path @ ''['' @ k @ '']'') ks)"
proof (rule apart_map [OF assms(1)])
  fix k k' x y
  assume "k \<in> set ks" "k' \<in> set ks" "(path @ ''['' @ k @ '']'') @ x = (path @ ''['' @ k' @ '']'') @ y"
  then show "k = k'" using assms(2) key_cut [of k k' x y] by simp
qed

lemma dot_apart:
  assumes "distinct ns" "\<forall>n \<in> set ns. plainName n"
  shows "apart (map (\<lambda>n. path @ ''.'' @ n) ns)"
proof (rule apart_map [OF assms(1)])
  fix n n' x y
  assume "n \<in> set ns" "n' \<in> set ns" "pathSuffix x" "pathSuffix y"
    "(path @ ''.'' @ n) @ x = (path @ ''.'' @ n') @ y"
  then show "n = n'" using assms(2) name_cut [of n n' x y] by simp
qed

section \<open>Paths of the nodes built\<close>

lemma apart_Cons:
  assumes "apart (p # ps)"
  shows "apart ps" and "\<And>q x y. q \<in> set ps \<Longrightarrow> pathSuffix x \<Longrightarrow> pathSuffix y \<Longrightarrow> p @ x \<noteq> q @ y"
  using assms by (auto simp: apart_def)

lemma indexed_fst:
  "map fst (indexed v path xs) = map (\<lambda>k. path @ ''['' @ k @ '']'') (map decimal [0..<length xs])"
  by (rule nth_equalityI) (simp_all add: indexed_def nth_enumerate_eq)

lemma indexed_live: "\<not> flagRO v \<Longrightarrow> filter (\<lambda>j. IsValid (snd j) \<and> CanInterface (snd j)) (indexed v path xs) = indexed v path xs"
  by (auto simp: indexed_def Index_def filter_id_conv IsValid_def CanInterface_def)

lemma indexed_content: "j \<in> set (indexed v path xs) \<Longrightarrow> content (snd j) \<in> set xs"
  by (auto simp: indexed_def Index_def in_set_enumerate_eq)

lemma indexed_apart: "apart (map fst (indexed v path xs))"
  unfolding indexed_fst
  by (rule bracket_apart) (auto simp: distinct_map decimal_plain intro: inj_onI dest: decimal_inj)


lemma apart_Nil [simp]: "apart []"
  by (simp add: apart_def)

lemma apart_single [simp]: "apart [p]"
  by (simp add: apart_def)

lemma wfHeapD:
  assumes "wfHeap h"
  shows "wfVal (pointee h a)" and "\<forall>x \<in> set (backing h a). wfVal x"
    and "distinct (map fst (filter (\<lambda>kx. snd kx \<noteq> None) (buckets h a)))"
    and "\<forall>kx \<in> set (buckets h a). \<forall>x. snd kx = Some x \<longrightarrow> plainKey (fst kx) \<and> wfVal x"
  using assms by (simp_all add: wfHeap_def)

lemma subvalues_wf:
  assumes "wfHeap h" "wfVal obj"
  shows "\<forall>j \<in> set (subvalues s h (ValueOf obj) path). wfVal (content (snd j))"
    and "apart (map fst (filter (\<lambda>j. IsValid (snd j) \<and> CanInterface (snd j)) (subvalues s h (ValueOf obj) path)))"
proof -
  let ?v = "ValueOf obj"
  let ?live = "\<lambda>j :: string \<times> Value. IsValid (snd j) \<and> CanInterface (snd j)"
  have "(\<forall>j \<in> set (subvalues s h ?v path). wfVal (content (snd j)))
      \<and> apart (map fst (filter ?live (subvalues s h ?v path)))"
  proof (cases obj)
    case (VPtr t a)
    then show ?thesis using wfHeapD(1) [OF assms(1)] by (simp add: subvalues_def Elem_def)
  next
    case (VStruct t fs)
    let ?F = "\<lambda>fx. (path @ ''.'' @ fName (fst fx), Value_Field ?v fx)"
    let ?kept = "filter (\<lambda>fx. \<not> skipField s ?v fx) fs"
    let ?l = "filter (\<lambda>fx. fPkgPath (fst fx) = []) ?kept"
    have jobs: "subvalues s h ?v path = map ?F ?kept" using VStruct by (simp add: subvalues_def)
    have "filter ?live (map ?F ?kept) = map ?F ?l"
      by (simp add: filter_map o_def Value_Field_def IsValid_def CanInterface_def)
    then have fst: "map fst (filter ?live (subvalues s h ?v path))
        = map (\<lambda>n. path @ ''.'' @ n) (map (\<lambda>fx. fName (fst fx)) ?l)"
      using jobs by (simp add: o_def)
    have l: "?l = filter (\<lambda>fx. \<not> skipField s ?v fx) (filter (\<lambda>fx. fPkgPath (fst fx) = []) fs)"
      by (simp add: conj_commute)
    have "distinct (map (\<lambda>fx. fName (fst fx)) (filter (\<lambda>fx. fPkgPath (fst fx) = []) fs))"
      using assms(2) VStruct by simp
    then have "distinct (map (\<lambda>fx. fName (fst fx)) ?l)"
      unfolding l by (rule distinct_map_filter)
    moreover have "\<forall>n \<in> set (map (\<lambda>fx. fName (fst fx)) ?l). plainName n"
      using assms(2) VStruct by auto
    ultimately have "apart (map fst (filter ?live (subvalues s h ?v path)))"
      unfolding fst by (rule dot_apart)
    moreover have "\<forall>j \<in> set (subvalues s h ?v path). wfVal (content (snd j))"
      using assms(2) VStruct jobs by (auto simp: Value_Field_def)
    ultimately show ?thesis by simp
  next
    case (VArray t xs)
    then have jobs: "subvalues s h ?v path = indexed ?v path xs" by (simp add: subvalues_def)
    show ?thesis unfolding jobs
      using assms(2) VArray indexed_content [of _ ?v path xs]
      by (auto simp: indexed_live indexed_apart)
  next
    case (VSlice t a)
    then have jobs: "subvalues s h ?v path = indexed ?v path (backing h a)" by (simp add: subvalues_def)
    have "\<forall>x \<in> set (backing h a). wfVal x" by (rule wfHeapD(2) [OF assms(1)])
    then show ?thesis unfolding jobs
      using indexed_content [of _ ?v path "backing h a"]
      by (auto simp: indexed_live indexed_apart)
  next
    case (VMap t a)
    let ?F = "\<lambda>(k, e). (path @ ''['' @ k @ '']'', MapIndex ?v e)"
    let ?found = "filter (\<lambda>kx. snd kx \<noteq> None) (buckets h a)"
    have jobs: "subvalues s h ?v path = map ?F (buckets h a)" using VMap by (simp add: subvalues_def)
    have "(?live \<circ> ?F) = (\<lambda>kx. snd kx \<noteq> None)"
      by (auto simp: fun_eq_iff MapIndex_def IsValid_def CanInterface_def split: option.splits)
    then have "filter ?live (map ?F (buckets h a)) = map ?F ?found"
      by (simp only: filter_map)
    then have fst: "map fst (filter ?live (subvalues s h ?v path))
        = map (\<lambda>k. path @ ''['' @ k @ '']'') (map fst ?found)"
      using jobs by (simp add: o_def case_prod_beta)
    have "apart (map fst (filter ?live (subvalues s h ?v path)))"
      unfolding fst using wfHeapD(3,4) [OF assms(1), of a] by (intro bracket_apart) auto
    moreover have "\<forall>j \<in> set (subvalues s h ?v path). wfVal (content (snd j))"
      unfolding jobs using wfHeapD(4) [OF assms(1), of a]
      by (auto simp: MapIndex_def split: option.splits)
    ultimately show ?thesis by simp
  qed (simp_all add: subvalues_def)
  then show "\<forall>j \<in> set (subvalues s h (ValueOf obj) path). wfVal (content (snd j))"
    and "apart (map fst (filter (\<lambda>j. IsValid (snd j) \<and> CanInterface (snd j)) (subvalues s h (ValueOf obj) path)))"
    by simp_all
qed

lemma subvalues_below:
  "j \<in> set (subvalues s h v path) \<Longrightarrow> \<exists>seg. fst j = path @ seg \<and> seg \<noteq> [] \<and> pathSuffix seg"
  by (cases "content v")
     (auto simp: subvalues_def indexed_def pathSuffix_def in_set_enumerate_eq split: if_splits)

lemma visit_paths:
  assumes "callUserFuncs fns v (length (nodes st)) (buildNode v path (markVisited v st)) = (cr, st1)"
  shows "map Path (nodes st1) = map Path (nodes st) @ [path]"
  using callUserFuncs_frame [OF assms] by (simp add: buildNode_def markVisited_def newMeta_def)

lemma walk_paths:
  fixes s :: "('u, 'e) walkSettings"
  shows "walkRecursive s h obj depth path st = (r, st') \<Longrightarrow> wfHeap h \<Longrightarrow> wfVal obj \<Longrightarrow>
      \<exists>ps. map Path (nodes st') = map Path (nodes st) @ ps \<and> distinct ps
        \<and> (\<forall>p \<in> set ps. \<exists>x. pathSuffix x \<and> p = path @ x)"
    and "walkChildren s h jobs depth m st = (r2, st') \<Longrightarrow> wfHeap h \<Longrightarrow>
      \<forall>j \<in> set jobs. wfVal (content (snd j)) \<Longrightarrow>
      apart (map fst (filter (\<lambda>j. IsValid (snd j) \<and> CanInterface (snd j)) jobs)) \<Longrightarrow>
      \<exists>ps. map Path (nodes st') = map Path (nodes st) @ ps \<and> distinct ps
        \<and> (\<forall>p \<in> set ps. \<exists>q \<in> set (map fst (filter (\<lambda>j. IsValid (snd j) \<and> CanInterface (snd j)) jobs)).
              \<exists>x. pathSuffix x \<and> p = q @ x)"
proof (induct rule: walk_induct)
  case (pruned s h obj depth path st)
  then show ?case by simp
next
  case (failed s h obj depth path st e st1)
  have "pathSuffix []" by (simp add: pathSuffix_def)
  then show ?case using visit_paths [OF failed(4)] by auto
next
  case (descended s h obj depth path st st1 wr st2)
  let ?jobs = "subvalues s h (ValueOf obj) path"
  let ?live = "filter (\<lambda>j. IsValid (snd j) \<and> CanInterface (snd j)) ?jobs"
  from descended(6) [OF descended(7) subvalues_wf [OF descended(7,8)]]
  obtain ps where ps: "map Path (nodes st2) = map Path (nodes st1) @ ps" "distinct ps"
    "\<forall>p \<in> set ps. \<exists>q \<in> set (map fst ?live). \<exists>x. pathSuffix x \<and> p = q @ x"
    by blast
  have below: "\<exists>x. pathSuffix x \<and> x \<noteq> [] \<and> p = path @ x" if "p \<in> set ps" for p
  proof -
    from ps(3) that obtain j x where j: "j \<in> set ?jobs" and x: "pathSuffix x" "p = fst j @ x"
      by auto
    from subvalues_below [OF j] obtain seg where
      seg: "fst j = path @ seg" "seg \<noteq> []" "pathSuffix seg" by blast
    have "pathSuffix (seg @ x)" using seg(2,3) by (cases seg) (simp_all add: pathSuffix_def)
    then show ?thesis using seg x by auto
  qed
  have "map Path (nodes st2) = map Path (nodes st) @ (path # ps)"
    using visit_paths [OF descended(4)] ps(1) by simp
  moreover have "distinct (path # ps)" using ps(2) below by auto
  moreover have "\<forall>p \<in> set (path # ps). \<exists>x. pathSuffix x \<and> p = path @ x"
    using below by (auto simp: pathSuffix_def)
  ultimately show ?case by blast
next
  case (Nil s h depth m st)
  then show ?case by simp
next
  case (panic s h newPath fv rest depth m st)
  then show ?case by simp
next
  case (childFailed s h newPath fv rest depth m st f st1)
  from childFailed(3) [OF childFailed(4)] childFailed(5) obtain ps where
    "map Path (nodes st1) = map Path (nodes st) @ ps" "distinct ps"
    "\<forall>p \<in> set ps. \<exists>x. pathSuffix x \<and> p = newPath @ x" by auto
  then show ?case using childFailed(1) by auto
next
  case (continued s h newPath fv rest depth m st childMeta st1 r st2)
  let ?live = "filter (\<lambda>j. IsValid (snd j) \<and> CanInterface (snd j)) rest"
  have ap: "apart (newPath # map fst ?live)" using continued(1,8) by simp
  from continued(3) [OF continued(6)] continued(7) obtain ps1 where
    ps1: "map Path (nodes st1) = map Path (nodes st) @ ps1" "distinct ps1"
    "\<forall>p \<in> set ps1. \<exists>x. pathSuffix x \<and> p = newPath @ x" by auto
  from continued(5) [OF continued(6) _ apart_Cons(1) [OF ap]] continued(7) obtain ps2 where
    ps2: "map Path (nodes st2) = map Path (nodes (attach m childMeta st1)) @ ps2" "distinct ps2"
    "\<forall>p \<in> set ps2. \<exists>q \<in> set (map fst ?live). \<exists>x. pathSuffix x \<and> p = q @ x" by auto
  have "set ps1 \<inter> set ps2 = {}"
  proof (rule ccontr)
    assume "set ps1 \<inter> set ps2 \<noteq> {}"
    then obtain p where "p \<in> set ps1" "p \<in> set ps2" by auto
    then obtain x q y where "pathSuffix x" "p = newPath @ x"
      "q \<in> set (map fst ?live)" "pathSuffix y" "p = q @ y"
      using ps1(3) ps2(3) by blast
    then show False using apart_Cons(2) [OF ap, of q x y] by simp
  qed
  then have "distinct (ps1 @ ps2)" using ps1(2) ps2(2) by simp
  moreover have "map Path (nodes st2) = map Path (nodes st) @ (ps1 @ ps2)"
    using ps1(1) ps2(1) by simp
  moreover have "\<forall>p \<in> set (ps1 @ ps2).
      \<exists>q \<in> set (map fst (filter (\<lambda>j. IsValid (snd j) \<and> CanInterface (snd j)) ((newPath, fv) # rest))).
        \<exists>x. pathSuffix x \<and> p = q @ x"
    using ps1(3) ps2(3) continued(1) by auto
  ultimately show ?case by blast
qed

section \<open>The flat map\<close>

lemma visit_flat:
  fixes st :: "('u, 'e) wstate"
  assumes "callUserFuncs fns v (length (nodes st)) (buildNode v path (markVisited v st)) = (cr, st1)"
  shows "flatMap st1 = (flatMap st)(path \<mapsto> length (nodes st))"
  using callUserFuncs_frame [OF assms] by (simp add: buildNode_def markVisited_def)

lemma flat_step:
  assumes "\<forall>p i. f p = Some i \<longrightarrow> i < length ps \<and> ps ! i = p" and "set ps \<subseteq> dom f"
  shows "(\<forall>p i. (f(path \<mapsto> length ps)) p = Some i \<longrightarrow>
            i < length (ps @ [path]) \<and> (ps @ [path]) ! i = p)
    \<and> set (ps @ [path]) \<subseteq> dom (f(path \<mapsto> length ps))"
proof -
  have "i < length (ps @ [path]) \<and> (ps @ [path]) ! i = p"
    if "(f(path \<mapsto> length ps)) p = Some i" for p i
  proof (cases "p = path")
    case True
    then show ?thesis using that by auto
  next
    case False
    then have "f p = Some i" using that by simp
    then have "i < length ps \<and> ps ! i = p" using assms(1) by blast
    then show ?thesis by (simp add: nth_append)
  qed
  moreover have "set (ps @ [path]) \<subseteq> dom (f(path \<mapsto> length ps))"
    using assms(2) by auto
  ultimately show ?thesis by blast
qed

lemma walk_inv:
  fixes I :: "('u, 'e) wstate \<Rightarrow> bool"
  assumes visit: "\<And>(s :: ('u, 'e) walkSettings) obj path st r st1.
       I st \<Longrightarrow> obj \<noteq> VNil \<Longrightarrow> \<not> alreadyVisited (ValueOf obj) st \<Longrightarrow>
       callUserFuncs (userFuncs s) (ValueOf obj) (length (nodes st))
         (buildNode (ValueOf obj) path (markVisited (ValueOf obj) st)) = (r, st1) \<Longrightarrow> I st1"
    and att: "\<And>m c st. I st \<Longrightarrow> I (attach m c st)"
  shows "walkRecursive s h obj depth path st = (r, st') \<Longrightarrow> I st \<Longrightarrow> I st'"
    and "walkChildren s h jobs depth m st = (r2, st') \<Longrightarrow> I st \<Longrightarrow> I st'"
proof -
  have 1: "I st \<longrightarrow> I st'" if "walkRecursive s h obj depth path st = (r, st')"
    by (rule walk_rel(1) [where R = "\<lambda>a b. I a \<longrightarrow> I b", OF _ _ _ _ that])
       (blast intro: visit att)+
  have 2: "I st \<longrightarrow> I st'" if "walkChildren s h jobs depth m st = (r2, st')"
    by (rule walk_rel(2) [where R = "\<lambda>a b. I a \<longrightarrow> I b", OF _ _ _ _ that])
       (blast intro: visit att)+
  show "walkRecursive s h obj depth path st = (r, st') \<Longrightarrow> I st \<Longrightarrow> I st'" using 1 by blast
  show "walkChildren s h jobs depth m st = (r2, st') \<Longrightarrow> I st \<Longrightarrow> I st'" using 2 by blast
qed

lemma walk_flat:
  fixes st :: "('u, 'e) wstate"
  assumes "walkRecursive s h obj depth path st = (r, st')" and "flatOK st"
  shows "flatOK st'"
proof (rule walk_inv(1) [where I = flatOK, OF _ _ assms])
  fix s :: "('u, 'e) walkSettings" and obj path and st st1 :: "('u, 'e) wstate" and r
  assume c: "callUserFuncs (userFuncs s) (ValueOf obj) (length (nodes st))
       (buildNode (ValueOf obj) path (markVisited (ValueOf obj) st)) = (r, st1)"
    and "flatOK st"
  have f: "flatMap st1 = (flatMap st)(path \<mapsto> length (map Path (nodes st)))"
    using visit_flat [OF c] by simp
  have a: "\<forall>p i. flatMap st p = Some i \<longrightarrow>
        i < length (map Path (nodes st)) \<and> map Path (nodes st) ! i = p"
    and b: "set (map Path (nodes st)) \<subseteq> dom (flatMap st)"
    using \<open>flatOK st\<close> unfolding flatOK_def by blast+
  show "flatOK st1"
    unfolding flatOK_def f visit_paths [OF c] by (rule flat_step [OF a b])
next
  fix m c and st :: "('u, 'e) wstate"
  assume "flatOK st"
  then show "flatOK (attach m c st)" unfolding flatOK_def attach_Path attach_frame .
qed

lemma flat_frame:
  fixes s :: "('u, 'e) walkSettings"
  shows "walkRecursive s h obj depth path st = (r, st') \<Longrightarrow> \<not> prefix path q \<Longrightarrow>
      flatMap st' q = flatMap st q"
    and "walkChildren s h jobs depth m st = (r2, st') \<Longrightarrow> \<forall>j \<in> set jobs. \<not> prefix (fst j) q \<Longrightarrow>
      flatMap st' q = flatMap st q"
proof (induct rule: walk_induct)
  case (pruned s h obj depth path st)
  then show ?case by simp
next
  case (failed s h obj depth path st e st1)
  then show ?case using visit_flat [OF failed(4)] by auto
next
  case (descended s h obj depth path st st1 wr st2)
  have "\<forall>j \<in> set (subvalues s h (ValueOf obj) path). \<not> prefix (fst j) q"
  proof
    fix j assume "j \<in> set (subvalues s h (ValueOf obj) path)"
    then obtain seg where "fst j = path @ seg" using subvalues_below by blast
    then show "\<not> prefix (fst j) q" using descended(7) by (metis prefix_order.trans prefixI)
  qed
  then have "flatMap st2 q = flatMap st1 q" using descended(6) by simp
  then show ?case using visit_flat [OF descended(4)] descended(7) by auto
next
  case (Nil s h depth m st)
  then show ?case by simp
next
  case (panic s h newPath fv rest depth m st)
  then show ?case by simp
next
  case (childFailed s h newPath fv rest depth m st f st1)
  then show ?case by simp
next
  case (continued s h newPath fv rest depth m st childMeta st1 r st2)
  then show ?case by simp
qed

lemma paths_grow:
  fixes st :: "('u, 'e) wstate"
  shows "walkRecursive s h obj depth path st = (r, st') \<Longrightarrow>
      prefix (map Path (nodes st)) (map Path (nodes st'))"
    and "walkChildren s h jobs depth m st = (r2, st') \<Longrightarrow>
      prefix (map Path (nodes st)) (map Path (nodes st'))"
proof -
  let ?R = "\<lambda>a b :: ('u, 'e) wstate. prefix (map Path (nodes a)) (map Path (nodes b))"
  have visit: "?R st st1"
    if "callUserFuncs (userFuncs s) (ValueOf obj) (length (nodes st))
         (buildNode (ValueOf obj) path (markVisited (ValueOf obj) st)) = (r, st1)"
    for s :: "('u, 'e) walkSettings" and obj path and st st1 :: "('u, 'e) wstate" and r
    using visit_paths [OF that] by simp
  show "walkRecursive s h obj depth path st = (r, st') \<Longrightarrow> ?R st st'"
    by (rule walk_rel(1) [where R = ?R]) (auto intro: visit)
  show "walkChildren s h jobs depth m st = (r2, st') \<Longrightarrow> ?R st st'"
    by (rule walk_rel(2) [where R = ?R]) (auto intro: visit)
qed


text \<open>
  Claim C9, amended. The engine never looks a path up: a call that returns a node returns
  the node it has just built, one that was not in the store before the call, whatever the
  flat map held for the path; after the call the flat map holds this new node under the
  path.
\<close>

theorem C9_fresh_node_per_call:
  fixes st :: "('u, 'e) wstate"
  assumes "walkRecursive s h obj depth path st = (Inr (Some m), st')"
  shows "m = length (nodes st) \<and> m < length (nodes st') \<and> Path (nodes st' ! m) = path
    \<and> flatMap st' path = Some m"
  using assms
proof (cases rule: walkRecursive_elim)
  case pruned
  then show ?thesis by simp
next
  case (failed e)
  then show ?thesis by simp
next
  case (descended st1 wr)
  have m: "m = length (nodes st)" using descended(6) by (cases wr) simp_all
  have p1: "map Path (nodes st1) = map Path (nodes st) @ [path]"
    by (rule visit_paths [OF descended(4)])
  from paths_grow(2) [OF descended(5)] obtain ps where
    "map Path (nodes st') = map Path (nodes st1) @ ps" by (auto simp: prefix_def)
  then have p2: "map Path (nodes st') = map Path (nodes st) @ path # ps" using p1 by simp
  have len: "length (nodes st) < length (nodes st')"
    using arg_cong [OF p2, of length] by simp
  have "map Path (nodes st') ! length (nodes st) = path"
    unfolding p2 by (simp add: nth_append)
  then have path: "Path (nodes st' ! length (nodes st)) = path" using len by simp
  have "\<forall>j \<in> set (subvalues s h (ValueOf obj) path). \<not> prefix (fst j) path"
    using subvalues_below by fastforce
  then have "flatMap st' path = flatMap st1 path" by (rule flat_frame(2) [OF descended(5)])
  then have "flatMap st' path = Some (length (nodes st))"
    using visit_flat [OF descended(4)] by simp
  then show ?thesis using m len path by simp
qed

theorem C9_fresh_node_per_call_witness:
  "flatMap cachedState ''p'' = Some 0
   \<and> fst (walkRecursive defaultSettings emptyHeap (VScalar intType) 0 ''p'' cachedState) = Inr (Some 1)
   \<and> 1 < length (nodes (snd (walkRecursive defaultSettings emptyHeap (VScalar intType) 0 ''p'' cachedState)))
   \<and> Path (nodes (snd (walkRecursive defaultSettings emptyHeap (VScalar intType) 0 ''p'' cachedState)) ! 1) = ''p''
   \<and> flatMap (snd (walkRecursive defaultSettings emptyHeap (VScalar intType) 0 ''p'' cachedState)) ''p'' = Some 1"
proof -
  let ?w = "walkRecursive defaultSettings emptyHeap (VScalar intType) 0 ''p'' cachedState"
  have r: "fst ?w = Inr (Some 1)" by (simp add: eval_defs cachedState_def)
  have run: "?w = (Inr (Some 1), snd ?w)" unfolding r [symmetric] by simp
  have c: "flatMap cachedState ''p'' = Some 0" by (simp add: eval_defs cachedState_def)
  have "1 < length (nodes (snd ?w)) \<and> Path (nodes (snd ?w) ! 1) = ''p''
      \<and> flatMap (snd ?w) ''p'' = Some 1"
    by (rule conjunct2 [OF C9_fresh_node_per_call [OF run]])
  then show ?thesis using r c by blast
qed

text \<open>
  Claim C9 as stated fails: in \<^verbatim>\<open>map[string][]int{"a": {7}, "a][0": nil}\<close> the element of
  the first slice and the second map entry have the same path. When the second is
  reached, node 2 is cached for that path, yet node 3 is built, attached to the root and
  stored in its place.
\<close>

theorem C9_cached_node_not_returned:
  "\<exists>fm st. Walk collidingHeap collidingMap [] () = (Returned (Some 0) (Some fm) (None :: unit option), st)
     \<and> length (nodes st) = 4
     \<and> Path (nodes st ! 2) = ''map[string][]int[a][0]'' \<and> Type (nodes st ! 2) = intType
     \<and> Path (nodes st ! 3) = ''map[string][]int[a][0]'' \<and> Type (nodes st ! 3) = sliceOfInt
     \<and> Children (nodes st ! 0) = [1, 3] \<and> Children (nodes st ! 1) = [2]
     \<and> fm ''map[string][]int[a][0]'' = Some 3"
  by (simp add: eval_defs collidingHeap_def collidingMap_def sliceOfInt_def mapOfSlices_def)

section \<open>Uniqueness of paths\<close>

text \<open>
  Claim C8, amended. When every map reached prints its keys to distinct texts without a
  closing bracket (and exported field names are distinct identifiers, as Go has them), no
  two nodes of a traversal have the same path, and the flat map is exactly the table of
  the nodes by path: a key leads to the one node with that path. The walk being a
  function of its input, a second walk of the same input (maps enumerated in the same
  order) builds the same paths.
\<close>

theorem C8_paths_unique_when_keys_plain:
  fixes st :: "('u, 'e) wstate"
  assumes "wfHeap h" and "wfVal obj" and "Walk h obj options u = (out, st)"
  shows "distinct (map Path (nodes st))
    \<and> (\<forall>p i. flatMap st p = Some i \<longleftrightarrow> (i < length (nodes st) \<and> Path (nodes st ! i) = p))
    \<and> (\<forall>root fm err. out = Returned root (Some fm) err \<longrightarrow> fm = flatMap st)"
  using assms(3)
proof (cases rule: Walk_cases)
  case nilRoot
  then show ?thesis by (simp add: initState_def)
next
  case (ran t r)
  let ?st0 = "initState u :: ('u, 'e) wstate"
  have n0: "nodes ?st0 = []" and f0: "flatOK ?st0" by (simp_all add: initState_def flatOK_def)
  from walk_paths(1) [OF ran(2) assms(1,2)] have d: "distinct (map Path (nodes st))"
    using n0 by auto
  have ok: "flatOK st" by (rule walk_flat [OF ran(2) f0])
  have F: "i < length (nodes st) \<and> Path (nodes st ! i) = p" if "flatMap st p = Some i" for p i
  proof -
    have "i < length (map Path (nodes st)) \<and> map Path (nodes st) ! i = p"
      using ok that unfolding flatOK_def by blast
    then show ?thesis by auto
  qed
  have G: "set (map Path (nodes st)) \<subseteq> dom (flatMap st)"
    using ok unfolding flatOK_def by blast
  have "flatMap st p = Some i" if "i < length (nodes st)" "Path (nodes st ! i) = p" for p i
  proof -
    have "p \<in> set (map Path (nodes st))" using that by (metis length_map nth_map nth_mem)
    then obtain j where j: "flatMap st p = Some j" using G by auto
    then have jl: "j < length (nodes st)" and "Path (nodes st ! j) = p" using F by simp_all
    then have "map Path (nodes st) ! j = map Path (nodes st) ! i" using that by simp
    then have "j = i" using d that(1) jl
      by (simp add: nth_eq_iff_index_eq del: nth_map)
    then show ?thesis using j by simp
  qed
  then have "\<forall>p i. flatMap st p = Some i \<longleftrightarrow> (i < length (nodes st) \<and> Path (nodes st ! i) = p)"
    using F by blast
  moreover have "\<forall>root fm err. out = Returned root (Some fm) err \<longrightarrow> fm = flatMap st"
    using ran(3) by (auto split: sum.splits failure.splits)
  ultimately show ?thesis using d by blast
qed




theorem C8_paths_unique_when_keys_plain_witness:
  "wfHeap benchHeap \<and> wfVal benchStruct
   \<and> map Path (nodes (snd (Walk benchHeap benchStruct [] () :: unit outcome \<times> _)))
      = [''B'', ''B.F'', ''B.F[0]'', ''B.G'', ''B.G[x]'']
   \<and> distinct (map Path (nodes (snd (Walk benchHeap benchStruct [] () :: unit outcome \<times> _))))"
proof -
  let ?w = "Walk benchHeap benchStruct [] () :: unit outcome \<times> _"
  have h: "wfHeap benchHeap"
    by (simp add: wfHeap_def benchHeap_def plainKey_def)
  have v: "wfVal benchStruct"
    by (simp add: benchStruct_def exported_def plainName_def)
  have run: "?w = (fst ?w, snd ?w)" by simp
  have p: "map Path (nodes (snd ?w)) = [''B'', ''B.F'', ''B.F[0]'', ''B.G'', ''B.G[x]'']"
    by (simp add: eval_defs benchHeap_def benchStruct_def)
  have "distinct (map Path (nodes (snd ?w)))"
    by (rule conjunct1 [OF C8_paths_unique_when_keys_plain [OF h v run]])
  then show ?thesis using h v p by blast
qed

text \<open>
  Claim C8 as stated fails: in \<^verbatim>\<open>map[string][]int{"a": {7}, "a][0": nil}\<close> two nodes get
  the path \<^verbatim>\<open>map[string][]int[a][0]\<close>.
\<close>

theorem C8_paths_collide:
  "\<not> distinct (map Path (nodes (snd (Walk collidingHeap collidingMap [] () :: unit outcome \<times> _))))"
  by (simp add: eval_defs collidingHeap_def collidingMap_def sliceOfInt_def mapOfSlices_def)

end
